theory Spec2Isabelle
  imports Complex_Main "HOL-Library.Sublist" "HOL-Library.Multiset"
begin

chapter \<open>A.FM audio file manager: model of the library, search, filter, sort and playback core\<close>

text \<open>
  The development embeds the TypeScript sources (\<^verbatim>\<open>App.tsx\<close> with \<^verbatim>\<open>types.ts\<close>, and
  \<^verbatim>\<open>components/FileExplorer.tsx\<close>) as HOL functions.  JavaScript numbers are modelled as
  \<^typ>\<open>real\<close> (no NaN, no rounding), JavaScript strings as \<^typ>\<open>string\<close> restricted to ASCII, and
  React state and refs as fields of records that are passed explicitly.  Browser built-ins
  (the regular expression engine, the file system, the audio element, the decoder, the clock,
  the random source) are parameters of the functions that use them: each call is answered by
  the environment, and a call that can throw or reject has a failing answer.

  A call of \<^verbatim>\<open>playFile\<close> is a task that stops at every \<^verbatim>\<open>await\<close> and is resumed by the
  scheduler, so that calls can overlap.  The rescan, the enrichment pass and the batch move are
  functions from state to state: each runs from its start to its end with no other operation
  in between.
\<close>

section \<open>Definitions\<close>

subsection \<open>Strings (the built-ins used by \<^verbatim>\<open>matchSmartSearch\<close>)\<close>

text \<open>The white space of \<^verbatim>\<open>String.prototype.trim\<close> and of \<^verbatim>\<open>\s\<close>, on ASCII.\<close>

definition isWhiteSpace :: "char \<Rightarrow> bool" where
  "isWhiteSpace c = (c \<in> set [CHR '' '', CHR 0x09, CHR 0x0A, CHR 0x0B, CHR 0x0C, CHR 0x0D])"

definition toLowerChar :: "char \<Rightarrow> char" where
  "toLowerChar c =
     (case map_of (zip ''ABCDEFGHIJKLMNOPQRSTUVWXYZ'' ''abcdefghijklmnopqrstuvwxyz'') c of
        Some l \<Rightarrow> l
      | None \<Rightarrow> c)"

definition toLowerCase :: "string \<Rightarrow> string" where
  "toLowerCase s = map toLowerChar s"

text \<open>\<^verbatim>\<open>t.includes(s)\<close>: \<open>s\<close> occurs in \<open>t\<close> as a contiguous substring.\<close>

fun str_includes :: "string \<Rightarrow> string \<Rightarrow> bool" where
  "str_includes [] s = (s = [])"
| "str_includes (c # cs) s = (prefix s (c # cs) \<or> str_includes cs s)"

definition startsWith :: "string \<Rightarrow> char \<Rightarrow> bool" where
  "startsWith s c = (case s of [] \<Rightarrow> False | x # _ \<Rightarrow> x = c)"

text \<open>\<^verbatim>\<open>s.lastIndexOf(c)\<close>: the last position of \<open>c\<close>, or \<open>-1\<close>.\<close>

definition lastIndexOf :: "string \<Rightarrow> char \<Rightarrow> int" where
  "lastIndexOf s c =
     (if c \<in> set s then int (length s) - 1 - int (length (takeWhile (\<lambda>x. x \<noteq> c) (rev s)))
      else - 1)"

text \<open>\<^verbatim>\<open>s.substring(a, b)\<close> for \<open>a \<le> b\<close> (the only way the source calls it) and
  \<^verbatim>\<open>s.substring(a)\<close>.\<close>

definition substring :: "string \<Rightarrow> nat \<Rightarrow> nat \<Rightarrow> string" where
  "substring s a b = take (b - a) (drop a s)"

definition substringFrom :: "string \<Rightarrow> nat \<Rightarrow> string" where
  "substringFrom s a = drop a s"

definition trim :: "string \<Rightarrow> string" where
  "trim s = rev (dropWhile isWhiteSpace (rev (dropWhile isWhiteSpace s)))"

text \<open>\<^verbatim>\<open>s.split(/\s+/)\<close>: cut at every maximal run of white space; a leading or trailing run
  leaves an empty first or last piece, and a string with no white space is returned whole.\<close>

function splitWS :: "string \<Rightarrow> string list" where
  "splitWS s =
     (case dropWhile (\<lambda>c. \<not> isWhiteSpace c) s of
        [] \<Rightarrow> [s]
      | w # rest \<Rightarrow> takeWhile (\<lambda>c. \<not> isWhiteSpace c) s # splitWS (dropWhile isWhiteSpace rest))"
  by pat_completeness auto
termination
proof (relation "measure length", goal_cases)
  case 1 show ?case by simp
next
  case (2 s w rest)
  have "length (dropWhile isWhiteSpace rest) \<le> length rest"
    by (rule length_dropWhile_le)
  moreover have "length (dropWhile (\<lambda>c. \<not> isWhiteSpace c) s) \<le> length s"
    by (rule length_dropWhile_le)
  ultimately show ?case using 2 by simp
qed

declare splitWS.simps [simp del]

subsection \<open>Smart search matcher (\<^verbatim>\<open>matchSmartSearch\<close>, App.tsx)\<close>

text \<open>
  \<^verbatim>\<open>new RegExp(pattern, flags)\<close> followed by \<^verbatim>\<open>re.test(text)\<close> is the browser's engine, taken
  as a parameter: it answers \<open>None\<close> where the constructor throws a \<^verbatim>\<open>SyntaxError\<close>, and
  otherwise the test of the freshly compiled expression (whose \<^verbatim>\<open>lastIndex\<close> is 0).
\<close>

type_synonym regexp_engine = "string \<Rightarrow> string \<Rightarrow> (string \<Rightarrow> bool) option"

text \<open>The body of the callback given to \<^verbatim>\<open>terms.every\<close>.\<close>

definition matchTerm :: "regexp_engine \<Rightarrow> string \<Rightarrow> string \<Rightarrow> bool" where
  "matchTerm RegExp text term =
     (if startsWith term CHR ''-'' then
        (let exclude = toLowerCase (substringFrom term 1) in
         if exclude = [] then True
         else \<not> str_includes (toLowerCase text) exclude)
      else if startsWith term CHR ''/'' \<and> lastIndexOf term CHR ''/'' > 0 then
        (let lastSlash = nat (lastIndexOf term CHR ''/'');
             pattern = substring term 1 lastSlash;
             flags = substringFrom term (lastSlash + 1)
         in case RegExp pattern (if flags = [] then ''i'' else flags) of
              Some re \<Rightarrow> re text
            | None \<Rightarrow> str_includes (toLowerCase text) (toLowerCase term))
      else str_includes (toLowerCase text) (toLowerCase term))"

definition matchSmartSearch :: "regexp_engine \<Rightarrow> string \<Rightarrow> string \<Rightarrow> bool" where
  "matchSmartSearch RegExp text query =
     (if trim query = [] then True
      else list_all (matchTerm RegExp text) (splitWS (trim query)))"

subsection \<open>Auxiliary: the words of a query\<close>

text \<open>The maximal runs of non-blank characters; used to reason about \<^const>\<open>splitWS\<close> after
  \<^const>\<open>trim\<close>.\<close>

function wordsOf :: "string \<Rightarrow> string list" where
  "wordsOf s =
     (case dropWhile isWhiteSpace s of
        [] \<Rightarrow> []
      | c # cs \<Rightarrow> takeWhile (\<lambda>c. \<not> isWhiteSpace c) (c # cs)
                 # wordsOf (dropWhile (\<lambda>c. \<not> isWhiteSpace c) (c # cs)))"
  by pat_completeness auto
termination
proof (relation "measure length", goal_cases)
  case 1 show ?case by simp
next
  case (2 s c cs)
  have "\<not> isWhiteSpace c"
    using 2 by (metis dropWhile_eq_Cons_conv)
  then have "length (dropWhile (\<lambda>c. \<not> isWhiteSpace c) (c # cs)) \<le> length cs"
    by (simp add: length_dropWhile_le)
  moreover have "length (dropWhile isWhiteSpace s) \<le> length s"
    by (rule length_dropWhile_le)
  ultimately show ?case using 2 by simp
qed

declare wordsOf.simps [simp del]

subsection \<open>The library tree (\<^verbatim>\<open>FileSystemItem\<close>, types.ts)\<close>

datatype kind = File | Directory

text \<open>A handle is an opaque capability; the legacy upload path stores an empty object instead
  and keeps the \<^verbatim>\<open>File\<close> in the extra property \<^verbatim>\<open>_file\<close>.\<close>

datatype handle = FileSystemFileHandle nat | FileSystemDirectoryHandle nat | EmptyObject

text \<open>What \<^verbatim>\<open>getFile()\<close> answers, or what the upload control hands over: a \<^verbatim>\<open>File\<close>.\<close>

datatype fileObj = FileObj (fileSize: real) (fileType: string) (fileLastModified: real)

text \<open>Optional properties are options; \<^verbatim>\<open>undefined\<close> is \<open>None\<close>.  The last field is
  \<^verbatim>\<open>_file\<close>.\<close>

datatype item = Item
  (id_of: string)
  (name_of: string)
  (kind_of: kind)
  (handle_of: handle)
  (parentHandle_of: "handle option")
  (children_of: "item list option")
  (size_of: "real option")
  (lastModified_of: "real option")
  (type_of: "string option")
  (duration_of: "real option")
  (rating_of: "real option")
  (file_of: "fileObj option")

datatype sortKey = SortName | SortSize | SortType | SortDate | SortDuration | SortRating

datatype sortOrder = Asc | Desc

text \<open>\<^verbatim>\<open>x || 0\<close> on an optional number, and a lookup \<^verbatim>\<open>m[id] || 0\<close> in a record of numbers.\<close>

definition orZero :: "real option \<Rightarrow> real" where
  "orZero x = (case x of None \<Rightarrow> 0 | Some v \<Rightarrow> v)"

definition lookupOrZero :: "(string \<rightharpoonup> real) \<Rightarrow> string \<Rightarrow> real" where
  "lookupOrZero m k = orZero (m k)"

subsection \<open>Sorting (\<^verbatim>\<open>sortedFiles\<close> in App.tsx, the sort inside \<^verbatim>\<open>flattenedList\<close>)\<close>

text \<open>The values a comparator looks at are numbers or strings.\<close>

datatype jsval = Num real | Str string

text \<open>\<^verbatim>\<open><\<close> on two strings compares code units from the left.\<close>

fun str_less :: "string \<Rightarrow> string \<Rightarrow> bool" where
  "str_less [] [] = False"
| "str_less [] (y # ys) = True"
| "str_less (x # xs) [] = False"
| "str_less (x # xs) (y # ys) =
     ((of_char x :: nat) < of_char y \<or> (x = y \<and> str_less xs ys))"

fun js_less :: "jsval \<Rightarrow> jsval \<Rightarrow> bool" where
  "js_less (Num a) (Num b) = (a < b)"
| "js_less (Str a) (Str b) = str_less a b"
| "js_less _ _ = False"

text \<open>
  The value both comparators compute for one entry.  For \<^verbatim>\<open>name\<close>, \<^verbatim>\<open>size\<close> and \<^verbatim>\<open>type\<close> the
  source reads \<^verbatim>\<open>(a as any)[sortKey] || 0\<close>, so a missing or empty string becomes the number
  0, which \<^verbatim>\<open>String(...)\<close> then turns into the text \<^verbatim>\<open>0\<close>.
\<close>

definition orZeroText :: "string option \<Rightarrow> string" where
  "orZeroText x = (case x of None \<Rightarrow> ''0'' | Some s \<Rightarrow> if s = [] then ''0'' else s)"

definition sortValue ::
  "sortKey \<Rightarrow> (string \<rightharpoonup> real) \<Rightarrow> (string \<rightharpoonup> real) \<Rightarrow> item \<Rightarrow> jsval" where
  "sortValue key durations ratings a =
     (case key of
        SortDate \<Rightarrow> Num (orZero (lastModified_of a))
      | SortDuration \<Rightarrow> Num (lookupOrZero durations (id_of a))
      | SortRating \<Rightarrow> Num (lookupOrZero ratings (id_of a))
      | SortSize \<Rightarrow> Num (orZero (size_of a))
      | SortName \<Rightarrow> Str (toLowerCase (orZeroText (Some (name_of a))))
      | SortType \<Rightarrow> Str (toLowerCase (orZeroText (type_of a))))"

text \<open>The comparator of \<^verbatim>\<open>sortedFiles\<close>: three outcomes.\<close>

definition compareFlat ::
  "sortKey \<Rightarrow> sortOrder \<Rightarrow> (string \<rightharpoonup> real) \<Rightarrow> (string \<rightharpoonup> real) \<Rightarrow> item \<Rightarrow> item \<Rightarrow> int" where
  "compareFlat key ord durations ratings a b =
     (let valA = sortValue key durations ratings a;
          valB = sortValue key durations ratings b
      in if js_less valA valB then (if ord = Asc then - 1 else 1)
         else if js_less valB valA then (if ord = Asc then 1 else - 1)
         else 0)"

text \<open>The comparator inside \<^verbatim>\<open>flattenedList\<close>: two outcomes,
  \<^verbatim>\<open>valA < valB ? (asc ? -1 : 1) : (asc ? 1 : -1)\<close>.\<close>

definition compareTree ::
  "sortKey \<Rightarrow> sortOrder \<Rightarrow> (string \<rightharpoonup> real) \<Rightarrow> (string \<rightharpoonup> real) \<Rightarrow> item \<Rightarrow> item \<Rightarrow> int" where
  "compareTree key ord durations ratings a b =
     (let valA = sortValue key durations ratings a;
          valB = sortValue key durations ratings b
      in if js_less valA valB then (if ord = Asc then - 1 else 1)
         else (if ord = Asc then 1 else - 1))"

text \<open>
  \<^verbatim>\<open>Array.prototype.sort\<close> with a comparator.  ECMAScript requires a stable sort when the
  comparator is consistent; the model is the stable insertion sort that takes the elements
  from the left and puts each one behind every element it is not smaller than (the insertion
  step of the engines' sort for short arrays).  With a comparator that is not consistent,
  ECMAScript leaves the order of the result to the engine.
\<close>

fun insertBy :: "('a \<Rightarrow> 'a \<Rightarrow> int) \<Rightarrow> 'a \<Rightarrow> 'a list \<Rightarrow> 'a list" where
  "insertBy cmp x [] = [x]"
| "insertBy cmp x (y # ys) = (if cmp x y < 0 then x # y # ys else y # insertBy cmp x ys)"

definition sortBy :: "('a \<Rightarrow> 'a \<Rightarrow> int) \<Rightarrow> 'a list \<Rightarrow> 'a list" where
  "sortBy cmp xs = fold (insertBy cmp) xs []"

subsection \<open>The filter predicate of the flat list (\<^verbatim>\<open>filteredFiles\<close>, App.tsx)\<close>

record filterCriteria =
  searchText :: string
  minSize :: real
  maxSize :: real
  minDuration :: real
  maxDuration :: real
  minDate :: real
  maxDate :: real
  minRating :: real

definition flatFileMatches ::
  "regexp_engine \<Rightarrow> filterCriteria \<Rightarrow> (string \<rightharpoonup> real) \<Rightarrow> (string \<rightharpoonup> real) \<Rightarrow> item \<Rightarrow> bool" where
  "flatFileMatches RegExp c durations ratings file =
     (let duration = lookupOrZero durations (id_of file);
          rating = lookupOrZero ratings (id_of file);
          matchSearch = matchSmartSearch RegExp (name_of file) (searchText c);
          matchSize = (orZero (size_of file) \<ge> minSize c \<and> orZero (size_of file) \<le> maxSize c);
          matchDuration = (duration \<ge> minDuration c \<and> duration \<le> maxDuration c);
          matchDate = (orZero (lastModified_of file) \<ge> minDate c
                       \<and> orZero (lastModified_of file) \<le> maxDate c);
          matchRating = (rating \<ge> minRating c)
      in matchSearch \<and> matchSize \<and> matchDuration \<and> matchDate \<and> matchRating)"

subsection \<open>The tree flattener (\<^verbatim>\<open>flattenedList\<close>, FileExplorer.tsx)\<close>

text \<open>\<^verbatim>\<open>x || Infinity\<close>: an upper bound that is missing or 0 is no bound; \<open>None\<close> is
  \<^verbatim>\<open>Infinity\<close>.\<close>

definition orInfinity :: "real option \<Rightarrow> real option" where
  "orInfinity x = (case x of None \<Rightarrow> None | Some v \<Rightarrow> if v = 0 then None else Some v)"

definition leBound :: "real \<Rightarrow> real option \<Rightarrow> bool" where
  "leBound x b = (case b of None \<Rightarrow> True | Some m \<Rightarrow> x \<le> m)"

definition treeFileMatches ::
  "regexp_engine \<Rightarrow> filterCriteria option \<Rightarrow> (string \<rightharpoonup> real) \<Rightarrow> (string \<rightharpoonup> real) \<Rightarrow> item \<Rightarrow> bool" where
  "treeFileMatches RegExp fc durations ratings node =
     (let duration = lookupOrZero durations (id_of node);
          rating = lookupOrZero ratings (id_of node);
          nodeMatchesSearch =
            matchSmartSearch RegExp (name_of node) (case fc of None \<Rightarrow> [] | Some c \<Rightarrow> searchText c);
          matchSize = (orZero (size_of node) \<ge> orZero (map_option minSize fc)
                       \<and> leBound (orZero (size_of node)) (orInfinity (map_option maxSize fc)));
          matchDuration = (duration \<ge> orZero (map_option minDuration fc)
                           \<and> leBound duration (orInfinity (map_option maxDuration fc)));
          matchDate = (orZero (lastModified_of node) \<ge> orZero (map_option minDate fc)
                       \<and> leBound (orZero (lastModified_of node)) (orInfinity (map_option maxDate fc)));
          matchRating = (rating \<ge> (case fc of None \<Rightarrow> 0 | Some c \<Rightarrow> minRating c))
      in nodeMatchesSearch \<and> matchSize \<and> matchDuration \<and> matchDate \<and> matchRating)"

text \<open>A row of the flattened list: the entry, its depth and, for a directory, whether it is
  expanded.\<close>

record row =
  node :: item
  depth :: nat
  isExpanded :: "bool option"

record explorer =
  items :: "item list"
  filterCriteriaProp :: "filterCriteria option"
  sortKeyProp :: sortKey
  sortOrderProp :: sortOrder
  durationsProp :: "string \<rightharpoonup> real"
  ratingsProp :: "string \<rightharpoonup> real"
  expandedFolders :: "string set"

definition searchActive :: "explorer \<Rightarrow> bool" where
  "searchActive p =
     (case filterCriteriaProp p of
        None \<Rightarrow> False
      | Some c \<Rightarrow> trim (searchText c) \<noteq> [] \<or> (minRating c \<noteq> 0 \<and> minRating c > 0))"

text \<open>\<^verbatim>\<open>processNode\<close> pushes rows on the shared array \<^verbatim>\<open>result\<close>, which is passed through.\<close>

function processNode :: "regexp_engine \<Rightarrow> explorer \<Rightarrow> item \<Rightarrow> nat \<Rightarrow> row list \<Rightarrow> row list" where
  "processNode RegExp p (Item i n k h ph cs sz lm ty du ra fl) d result =
     (let nd = Item i n k h ph cs sz lm ty du ra fl;
          nodeMatchesSearch =
            matchSmartSearch RegExp n
              (case filterCriteriaProp p of None \<Rightarrow> [] | Some c \<Rightarrow> searchText c)
      in if k = File then
           (if treeFileMatches RegExp (filterCriteriaProp p) (durationsProp p) (ratingsProp p) nd
            then result @ [\<lparr>node = nd, depth = d, isExpanded = None\<rparr>]
            else result)
         else
           (let expanded = (i \<in> expandedFolders p);
                children = (case cs of None \<Rightarrow> [] | Some l \<Rightarrow> l);
                originalResultLength = length result;
                result1 = (if expanded \<or> searchActive p
                           then fold (\<lambda>child r. processNode RegExp p child (d + 1) r) children result
                           else result);
                hasMatches = (length result1 > originalResultLength)
            in if hasMatches \<or> (nodeMatchesSearch \<and> i \<noteq> ''root'') then
                 (let matches = drop originalResultLength result1;
                      result2 = take originalResultLength result1;
                      sorted = sortBy (\<lambda>a b. compareTree (sortKeyProp p) (sortOrderProp p)
                                                (durationsProp p) (ratingsProp p) (node a) (node b))
                                      matches;
                      result3 = result2 @ [\<lparr>node = nd, depth = d, isExpanded = Some expanded\<rparr>]
                  in if expanded then result3 @ sorted else result3)
               else result1))"
  by pat_completeness auto
termination
  by (relation "measure (\<lambda>(R, p, nd, d, r). size nd)") (auto simp: less_Suc_eq_le le_SucI size_list_estimation' [OF _ order_refl])

definition flattenedList :: "regexp_engine \<Rightarrow> explorer \<Rightarrow> row list" where
  "flattenedList RegExp p = fold (\<lambda>item r. processNode RegExp p item 0 r) (items p) []"

subsection \<open>Application state (the state variables and refs of \<^verbatim>\<open>App\<close>)\<close>

record audioBuffer =
  channelData :: "real list"
  bufferDuration :: real

record waveformData =
  points :: "real list"
  duration :: real
  buffer :: audioBuffer

text \<open>The transient notice shown to the user (the state variable \<^verbatim>\<open>error\<close>); the timers that
  clear it are not modelled.\<close>

datatype notice = LoadFailed string | Moved nat | BatchMoveFailed

record range =
  lower :: real
  upper :: real

record bounds =
  sizeRange :: range
  durationRange :: range
  dateRange :: range

text \<open>
  The eight filter variables (\<^verbatim>\<open>debouncedSearch\<close>, \<^verbatim>\<open>minSize\<close>, ..., \<^verbatim>\<open>minRating\<close>) are the
  field \<open>criteria\<close>: \<^verbatim>\<open>App\<close> hands exactly this object to the explorer.  A \<^verbatim>\<open>Set\<close> of ids is the
  list of its members in insertion order.  \<open>persistedDurations\<close> lists every value written by
  \<^verbatim>\<open>saveMetadata('durations', ...)\<close>, oldest first; \<open>revokedUrls\<close>, \<open>audioSrc\<close> and \<open>pendingSkips\<close>
  record what was done to the object URLs, to the audio element and to the timer that calls
  \<^verbatim>\<open>playNext(true)\<close> after a failed load.
\<close>

record app =
  explorerItems :: "item list"
  availableFolders :: "item list"
  allFiles :: "item list"
  durations :: "string \<rightharpoonup> real"
  ratings :: "string \<rightharpoonup> real"
  activeFileId :: "string option"
  selectedIds :: "string list"
  waveform :: "waveformData option"
  isStarted :: bool
  isLoading :: bool
  isPlaying :: bool
  error :: "notice option"
  isRandom :: bool
  isLooping :: bool
  isGradientBackground :: bool
  isGradientWaveform :: bool
  isUpdateGradientOnLoad :: bool
  gradientHues :: "real \<times> real"
  sortKey :: sortKey
  sortOrder :: sortOrder
  criteria :: filterCriteria
  bounds :: bounds
  rootHandle :: "handle option"
  lastUrl :: "nat option"
  playRequestCount :: nat
  hasAutoLoadedFirst :: bool
  metadataQueue :: "item list"
  isEnriching :: bool
  persistedDurations :: "(string \<rightharpoonup> real) list"
  revokedUrls :: "nat list"
  hasAudio :: bool
  audioSrc :: "nat option"
  pendingSkips :: nat

definition sortedFiles :: "app \<Rightarrow> item list" where
  "sortedFiles s =
     sortBy (compareFlat (sortKey s) (sortOrder s) (durations s) (ratings s)) (allFiles s)"

definition filteredFiles :: "regexp_engine \<Rightarrow> app \<Rightarrow> item list" where
  "filteredFiles RegExp s =
     filter (flatFileMatches RegExp (criteria s) (durations s) (ratings s)) (sortedFiles s)"

subsection \<open>Playback (\<^verbatim>\<open>playFile\<close>, \<^verbatim>\<open>playNext\<close>, \<^verbatim>\<open>playPrev\<close>, App.tsx)\<close>

datatype 'a promise = Rejects | Resolves 'a

datatype playOutcome = Started | AbortError | OtherError

text \<open>
  What the browser answers to one call of \<^verbatim>\<open>playFile\<close>: the hues drawn by
  \<^verbatim>\<open>randomizeGradient\<close>, the result of \<^verbatim>\<open>getFile()\<close>, of \<^verbatim>\<open>audio.play()\<close>, of
  \<^verbatim>\<open>file.arrayBuffer()\<close> and of \<^verbatim>\<open>decodeAudioData\<close>.  \<^verbatim>\<open>initAudioCtx\<close> is taken to succeed,
  and the \<^verbatim>\<open>play\<close> and \<^verbatim>\<open>pause\<close> events of the audio element, which also write
  \<^verbatim>\<open>isPlaying\<close>, are left out.
\<close>

record playEnv =
  newHues :: "real \<times> real"
  getFileResult :: "fileObj promise"
  playResult :: playOutcome
  arrayBufferOk :: bool
  decodeResult :: "audioBuffer option promise"

text \<open>The \<^verbatim>\<open>await\<close> at which a call of \<^verbatim>\<open>playFile\<close> is suspended.\<close>

datatype stage =
  AwaitInitAudioCtx | AwaitGetFile | AwaitTimeout | AwaitPlay | AwaitArrayBuffer | AwaitDecode
  | Finished

record task =
  taskItem :: item
  shouldPlay :: bool
  requestId :: nat
  env :: playEnv
  stage :: stage
  url :: "nat option"

record player =
  state :: app
  tasks :: "task list"

text \<open>The coarse peak waveform: 800 samples, each the largest absolute amplitude of its
  block of the first channel.\<close>

definition waveformPoints :: "real list \<Rightarrow> real list" where
  "waveformPoints rawData =
     (let samples = 800;
          blockSize = (if length rawData div samples = 0 then 1 else length rawData div samples)
      in map (\<lambda>i. let start = i * blockSize;
                      endIdx = min (start + blockSize) (length rawData)
                  in fold (\<lambda>v m. if \<bar>v\<bar> > m then \<bar>v\<bar> else m)
                          (take (endIdx - start) (drop start rawData)) 0)
             [0..<samples])"

text \<open>The \<^verbatim>\<open>catch\<close> block of \<^verbatim>\<open>playFile\<close>.\<close>

definition catchBlock :: "task \<Rightarrow> app \<Rightarrow> task \<times> app" where
  "catchBlock t s =
     (if requestId t = playRequestCount s then
        (t\<lparr>stage := Finished\<rparr>,
         s\<lparr>error := Some (LoadFailed (name_of (taskItem t))),
           waveform := None,
           pendingSkips := (if shouldPlay t then pendingSkips s + 1 else pendingSkips s)\<rparr>)
      else (t\<lparr>stage := Finished\<rparr>, s))"

text \<open>From the first \<^verbatim>\<open>if (requestId !== playRequestCount.current) return;\<close> to the call of
  \<^verbatim>\<open>file.arrayBuffer()\<close>.\<close>

definition checkThenBuffer :: "task \<Rightarrow> app \<Rightarrow> task \<times> app" where
  "checkThenBuffer t s =
     (if requestId t \<noteq> playRequestCount s then (t\<lparr>stage := Finished\<rparr>, s)
      else (t\<lparr>stage := AwaitArrayBuffer\<rparr>, s))"

text \<open>\<^verbatim>\<open>if (lastUrlRef.current) URL.revokeObjectURL(lastUrlRef.current)\<close>.\<close>

definition releaseLastUrl :: "app \<Rightarrow> app" where
  "releaseLastUrl s =
     (case lastUrl s of None \<Rightarrow> s | Some u \<Rightarrow> s\<lparr>revokedUrls := revokedUrls s @ [u]\<rparr>)"

text \<open>From the release of the previous object URL to the 10 ms pause; the new URL is named by
  the request that creates it.\<close>

definition withFile :: "fileObj \<Rightarrow> task \<Rightarrow> app \<Rightarrow> task \<times> app" where
  "withFile f t s =
     (let s1 = releaseLastUrl s;
          s2 = s1\<lparr>lastUrl := Some (requestId t)\<rparr>;
          s3 = s2\<lparr>activeFileId := Some (id_of (taskItem t))\<rparr>;
          t1 = t\<lparr>url := Some (requestId t)\<rparr>
      in if hasAudio s3 then (t1\<lparr>stage := AwaitTimeout\<rparr>, s3\<lparr>audioSrc := None\<rparr>)
         else checkThenBuffer t1 s3)"

text \<open>After \<^verbatim>\<open>await initAudioCtx()\<close>: open the file.  Without a file handle the file is
  \<^verbatim>\<open>item._file\<close>; when that is missing, reading \<^verbatim>\<open>file.type\<close> throws, after the previous URL
  has been released.\<close>

definition openFile :: "task \<Rightarrow> app \<Rightarrow> task \<times> app" where
  "openFile t s =
     (case handle_of (taskItem t) of
        FileSystemFileHandle h \<Rightarrow> (t\<lparr>stage := AwaitGetFile\<rparr>, s)
      | _ \<Rightarrow> (case file_of (taskItem t) of
                Some f \<Rightarrow> withFile f t s
              | None \<Rightarrow> catchBlock t (releaseLastUrl s)))"

definition afterGetFile :: "task \<Rightarrow> app \<Rightarrow> task \<times> app" where
  "afterGetFile t s =
     (case getFileResult (env t) of
        Rejects \<Rightarrow> catchBlock t s
      | Resolves f \<Rightarrow> withFile f t s)"

definition afterTimeout :: "task \<Rightarrow> app \<Rightarrow> task \<times> app" where
  "afterTimeout t s =
     (let s1 = s\<lparr>audioSrc := url t\<rparr>
      in if shouldPlay t then (t\<lparr>stage := AwaitPlay\<rparr>, s1)
         else checkThenBuffer t (s1\<lparr>isPlaying := False\<rparr>))"

definition afterPlay :: "task \<Rightarrow> app \<Rightarrow> task \<times> app" where
  "afterPlay t s =
     (case playResult (env t) of
        Started \<Rightarrow> checkThenBuffer t (s\<lparr>isPlaying := True\<rparr>)
      | AbortError \<Rightarrow> checkThenBuffer t s
      | OtherError \<Rightarrow> catchBlock t s)"

definition afterArrayBuffer :: "task \<Rightarrow> app \<Rightarrow> task \<times> app" where
  "afterArrayBuffer t s =
     (if arrayBufferOk (env t) then (t\<lparr>stage := AwaitDecode\<rparr>, s) else catchBlock t s)"

definition afterDecode :: "task \<Rightarrow> app \<Rightarrow> task \<times> app" where
  "afterDecode t s =
     (case decodeResult (env t) of
        Rejects \<Rightarrow> catchBlock t s
      | Resolves audioBuffer \<Rightarrow>
          if requestId t \<noteq> playRequestCount s then (t\<lparr>stage := Finished\<rparr>, s)
          else (case audioBuffer of
                  Some b \<Rightarrow>
                    (t\<lparr>stage := Finished\<rparr>,
                     s\<lparr>waveform := Some \<lparr>points = waveformPoints (channelData b),
                                         duration = bufferDuration b, buffer = b\<rparr>\<rparr>)
                | None \<Rightarrow> (t\<lparr>stage := Finished\<rparr>, s\<lparr>waveform := None\<rparr>)))"

text \<open>One resumption of a suspended call: it runs to its next \<^verbatim>\<open>await\<close> or to its end.\<close>

definition resume :: "task \<Rightarrow> app \<Rightarrow> task \<times> app" where
  "resume t s =
     (case stage t of
        AwaitInitAudioCtx \<Rightarrow> openFile t s
      | AwaitGetFile \<Rightarrow> afterGetFile t s
      | AwaitTimeout \<Rightarrow> afterTimeout t s
      | AwaitPlay \<Rightarrow> afterPlay t s
      | AwaitArrayBuffer \<Rightarrow> afterArrayBuffer t s
      | AwaitDecode \<Rightarrow> afterDecode t s
      | Finished \<Rightarrow> (t, s))"

text \<open>The call \<^verbatim>\<open>playFile(item, shouldPlay)\<close> up to its first \<^verbatim>\<open>await\<close>.\<close>

definition playFile :: "playEnv \<Rightarrow> item \<Rightarrow> bool \<Rightarrow> player \<Rightarrow> player" where
  "playFile e item sp c =
     (if kind_of item \<noteq> File then c
      else
        (let s = state c;
             rid = playRequestCount s + 1;
             s1 = s\<lparr>playRequestCount := rid\<rparr>;
             s2 = (if (isGradientBackground s1 \<or> isGradientWaveform s1) \<and> isUpdateGradientOnLoad s1
                   then s1\<lparr>gradientHues := newHues e\<rparr> else s1)
         in c\<lparr>state := s2,
              tasks := tasks c @ [\<lparr>taskItem = item, shouldPlay = sp, requestId = rid, env = e,
                                    stage = AwaitInitAudioCtx, url = None\<rparr>]\<rparr>))"

text \<open>The scheduler resumes the call with the given request number.\<close>

fun resumeIn :: "nat \<Rightarrow> task list \<Rightarrow> app \<Rightarrow> task list \<times> app" where
  "resumeIn rid [] s = ([], s)"
| "resumeIn rid (t # ts) s =
     (if requestId t = rid then (let (t', s') = resume t s in (t' # ts, s'))
      else (let (ts', s') = resumeIn rid ts s in (t # ts', s')))"

definition resumeRequest :: "nat \<Rightarrow> player \<Rightarrow> player" where
  "resumeRequest rid c = (let (ts, s) = resumeIn rid (tasks c) (state c) in \<lparr>state = s, tasks = ts\<rparr>)"

datatype event = Play playEnv item bool | Resume nat

fun step :: "event \<Rightarrow> player \<Rightarrow> player" where
  "step (Play e item sp) c = playFile e item sp c"
| "step (Resume rid) c = resumeRequest rid c"

definition run :: "event list \<Rightarrow> player \<Rightarrow> player" where
  "run evs c = fold step evs c"

text \<open>\<^verbatim>\<open>xs.findIndex(p)\<close>, \<^verbatim>\<open>xs[i]\<close> for an integer \<open>i\<close>, and \<^verbatim>\<open>a % b\<close> for \<open>b \<noteq> 0\<close> (the sign
  of the result is the sign of \<open>a\<close>).\<close>

fun findIndex :: "('a \<Rightarrow> bool) \<Rightarrow> 'a list \<Rightarrow> int" where
  "findIndex P [] = - 1"
| "findIndex P (x # xs) =
     (if P x then 0 else (let i = findIndex P xs in if i < 0 then - 1 else i + 1))"

definition atIndex :: "'a list \<Rightarrow> int \<Rightarrow> 'a option" where
  "atIndex xs i = (if 0 \<le> i \<and> i < int (length xs) then Some (xs ! nat i) else None)"

definition js_rem :: "int \<Rightarrow> int \<Rightarrow> int" where
  "js_rem a b = sgn a * (\<bar>a\<bar> mod \<bar>b\<bar>)"

text \<open>\<open>rnd\<close> is the value of \<^verbatim>\<open>Math.random()\<close>, and \<open>e\<close> what the browser answers to the call of
  \<^verbatim>\<open>playFile\<close> that is made; \<open>filtered\<close> is the list \<^verbatim>\<open>filteredFiles\<close> the callback closes over.\<close>

definition playNext :: "real \<Rightarrow> playEnv \<Rightarrow> item list \<Rightarrow> bool \<Rightarrow> player \<Rightarrow> player" where
  "playNext rnd e filtered forceNext c =
     (if length filtered = 0 then c
      else
        (let s = state c;
             activeFile = find (\<lambda>f. Some (id_of f) = activeFileId s) filtered
         in if \<not> forceNext \<and> isLooping s \<and> activeFile \<noteq> None then
              (case activeFile of Some af \<Rightarrow> playFile e af True c | None \<Rightarrow> c)
            else
              (let nextIdx =
                     (if isRandom s then \<lfloor>rnd * real (length filtered)\<rfloor>
                      else (let currentIdx = findIndex (\<lambda>f. Some (id_of f) = activeFileId s) filtered
                            in js_rem (currentIdx + 1) (int (length filtered))));
                   nextFile = atIndex filtered nextIdx;
                   sp = (if forceNext then isPlaying s else True)
               in case nextFile of Some nf \<Rightarrow> playFile e nf sp c | None \<Rightarrow> c)))"

definition playPrev :: "real \<Rightarrow> playEnv \<Rightarrow> item list \<Rightarrow> player \<Rightarrow> player" where
  "playPrev rnd e filtered c =
     (if length filtered = 0 then c
      else
        (let s = state c;
             prevIdx =
               (if isRandom s then \<lfloor>rnd * real (length filtered)\<rfloor>
                else (let currentIdx = findIndex (\<lambda>f. Some (id_of f) = activeFileId s) filtered
                      in js_rem (currentIdx - 1 + int (length filtered))
                                (int (length filtered))));
             prevFile = atIndex filtered prevIdx
         in case prevFile of Some pf \<Rightarrow> playFile e pf (isPlaying s) c | None \<Rightarrow> c))"

subsection \<open>Initial state and a small library for the examples\<close>

text \<open>The initial values of the state variables and refs of \<^verbatim>\<open>App\<close>; \<open>now\<close> is \<^verbatim>\<open>Date.now()\<close>
  at the first render.  The audio element is mounted.\<close>

definition initialApp :: "real \<Rightarrow> app" where
  "initialApp now =
     \<lparr>explorerItems = [], availableFolders = [], allFiles = [],
      durations = Map.empty, ratings = Map.empty,
      activeFileId = None, selectedIds = [], waveform = None,
      isStarted = False, isLoading = False, isPlaying = False, error = None,
      isRandom = False, isLooping = False,
      isGradientBackground = True, isGradientWaveform = True, isUpdateGradientOnLoad = True,
      gradientHues = (180, 240),
      sortKey = SortName, sortOrder = Asc,
      criteria = \<lparr>searchText = [], minSize = 0, maxSize = 100000000, minDuration = 0,
                   maxDuration = 60, minDate = 0, maxDate = now, minRating = 0\<rparr>,
      bounds = \<lparr>sizeRange = \<lparr>lower = 0, upper = 100000000\<rparr>,
                 durationRange = \<lparr>lower = 0, upper = 60\<rparr>,
                 dateRange = \<lparr>lower = 0, upper = now\<rparr>\<rparr>,
      rootHandle = None, lastUrl = None, playRequestCount = 0, hasAutoLoadedFirst = False,
      metadataQueue = [], isEnriching = False,
      persistedDurations = [], revokedUrls = [], hasAudio = True, audioSrc = None,
      pendingSkips = 0\<rparr>"

definition audioFile :: "string \<Rightarrow> nat \<Rightarrow> real \<Rightarrow> item" where
  "audioFile nm h sz =
     Item nm nm File (FileSystemFileHandle h) (Some (FileSystemDirectoryHandle 0)) None
          (Some sz) (Some 1000) (Some ''audio/wav'') (Some 0) None None"

definition fileA :: item where "fileA = audioFile ''a.wav'' 1 100"
definition fileB :: item where "fileB = audioFile ''b.wav'' 2 200"
definition fileC :: item where "fileC = audioFile ''c.wav'' 3 300"

definition bufferOf :: "real \<Rightarrow> audioBuffer" where
  "bufferOf d = \<lparr>channelData = [0, 1 / 2, - 1], bufferDuration = d\<rparr>"

text \<open>A browser in which every step of a load succeeds; the decoded buffer lasts \<open>d\<close>
  seconds.\<close>

definition envOk :: "real \<Rightarrow> playEnv" where
  "envOk d =
     \<lparr>newHues = (10, 200), getFileResult = Resolves (FileObj 100 ''audio/wav'' 1000),
      playResult = Started, arrayBufferOk = True, decodeResult = Resolves (Some (bufferOf d))\<rparr>"

definition playerAt :: "string option \<Rightarrow> bool \<Rightarrow> player" where
  "playerAt active looping =
     \<lparr>state = (initialApp 0)\<lparr>activeFileId := active, isLooping := looping\<rparr>, tasks = []\<rparr>"

text \<open>The props \<^verbatim>\<open>App\<close> hands to \<^verbatim>\<open>FileExplorer\<close>: the entries of the current folder, the
  filter variables as one object, the sort variables and the two metadata records; the set
  of expanded folders is the explorer's own state.\<close>

definition explorerOf :: "app \<Rightarrow> item list \<Rightarrow> string set \<Rightarrow> explorer" where
  "explorerOf s currentFolderItems expanded =
     \<lparr>items = currentFolderItems, filterCriteriaProp = Some (criteria s),
      sortKeyProp = sortKey s, sortOrderProp = sortOrder s,
      durationsProp = durations s, ratingsProp = ratings s, expandedFolders = expanded\<rparr>"

text \<open>The files that can be reached from an entry through expanded directories only.\<close>

function visibleFilesOf :: "string set \<Rightarrow> item \<Rightarrow> item list" where
  "visibleFilesOf expanded (Item i n k h ph cs sz lm ty du ra fl) =
     (if k = File then [Item i n k h ph cs sz lm ty du ra fl]
      else if i \<in> expanded
        then concat (map (visibleFilesOf expanded) (case cs of None \<Rightarrow> [] | Some l \<Rightarrow> l))
        else [])"
  by pat_completeness auto
termination
  by (relation "measure (\<lambda>(e, nd). size nd)")
     (auto simp: less_Suc_eq_le le_SucI size_list_estimation' [OF _ order_refl])

definition fileRows :: "row list \<Rightarrow> item set" where
  "fileRows rows = {node r | r. r \<in> set rows \<and> kind_of (node r) = File}"

definition folderOf :: "string \<Rightarrow> item list \<Rightarrow> item" where
  "folderOf nm cs =
     Item nm nm Directory (FileSystemDirectoryHandle 9) (Some (FileSystemDirectoryHandle 0))
          (Some cs) None None None None None None"

text \<open>A player in its initial state, with nothing loaded.\<close>

definition initialPlayer :: player where
  "initialPlayer = \<lparr>state = initialApp 0, tasks = []\<rparr>"

text \<open>
  \<^verbatim>\<open>play(A)\<close>, then at once \<^verbatim>\<open>play(B)\<close>; the file of \<open>B\<close> opens first and \<open>B\<close> runs to its end,
  then the file of \<open>A\<close> opens and \<open>A\<close> runs on.
\<close>

definition slowOpenRace :: "event list" where
  "slowOpenRace =
     [Play (envOk 1) fileA True, Play (envOk 2) fileB True,
      Resume 1, Resume 2,
      Resume 2, Resume 2, Resume 2, Resume 2, Resume 2,
      Resume 1, Resume 1, Resume 1]"

text \<open>
  \<^verbatim>\<open>play(A)\<close> runs up to its decode; then \<^verbatim>\<open>play(B)\<close> is called and runs to its end; then the
  decode of \<open>A\<close> finishes.
\<close>

definition slowDecodeRace :: "event list" where
  "slowDecodeRace =
     [Play (envOk 1) fileA True,
      Resume 1, Resume 1, Resume 1, Resume 1, Resume 1,
      Play (envOk 2) fileB True,
      Resume 2, Resume 2, Resume 2, Resume 2, Resume 2, Resume 2,
      Resume 1]"

subsection \<open>Rescan (\<^verbatim>\<open>refreshFiles\<close>, App.tsx)\<close>

text \<open>How an asynchronous function ends: it returns, or it throws; either way with the state
  it leaves behind.\<close>

datatype 's completion = Returned 's | Thrown 's

text \<open>
  What the environment answers to one rescan: the name of the root directory, the tree that
  \<^verbatim>\<open>scanDirectory\<close> builds (it catches its own errors) and the answer of
  \<^verbatim>\<open>getMetadata('durations')\<close>.
\<close>

record scanEnv =
  rootName :: string
  scanned :: "item list"
  cachedDurations :: "(string \<rightharpoonup> real) option promise"

text \<open>The local function \<^verbatim>\<open>collect\<close>, which pushes on the two arrays \<^verbatim>\<open>files\<close> and
  \<^verbatim>\<open>folders\<close>.\<close>

function collectItem :: "item \<Rightarrow> item list \<times> item list \<Rightarrow> item list \<times> item list" where
  "collectItem (Item i n k h ph cs sz lm ty du ra fl) (files, folders) =
     (if k = File then (files @ [Item i n k h ph cs sz lm ty du ra fl], folders)
      else (case cs of
              None \<Rightarrow> (files, folders @ [Item i n k h ph cs sz lm ty du ra fl])
            | Some l \<Rightarrow> fold (\<lambda>c acc. collectItem c acc) l
                         (files, folders @ [Item i n k h ph cs sz lm ty du ra fl])))"
  by pat_completeness auto
termination
  by (relation "measure (\<lambda>(nd, acc). size nd)")
     (auto simp: less_Suc_eq_le le_SucI size_list_estimation' [OF _ order_refl])

definition collect :: "item list \<Rightarrow> item list \<times> item list" where
  "collect list = fold (\<lambda>c acc. collectItem c acc) list ([], [])"

definition refreshFiles :: "scanEnv \<Rightarrow> app \<Rightarrow> app completion" where
  "refreshFiles e s =
     (case rootHandle s of
        None \<Rightarrow> Returned s
      | Some rh \<Rightarrow>
          (let s1 = s\<lparr>isLoading := True\<rparr>;
               s2 = s1\<lparr>explorerItems :=
                        [Item ''root'' (rootName e) Directory rh None (Some (scanned e))
                              None None None None None None]\<rparr>;
               (files, folders) = collect (scanned e)
           in if length files > 0 then
                (let sizes = map (\<lambda>f. orZero (size_of f)) files;
                     dates = map (\<lambda>f. orZero (lastModified_of f)) files;
                     newBounds = \<lparr>sizeRange = \<lparr>lower = Min (set sizes), upper = Max (set sizes)\<rparr>,
                                  durationRange = \<lparr>lower = 0, upper = 60\<rparr>,
                                  dateRange = \<lparr>lower = Min (set dates), upper = Max (set dates)\<rparr>\<rparr>;
                     s3 = s2\<lparr>bounds := newBounds,
                             criteria := (criteria s2)
                               \<lparr>minSize := lower (sizeRange newBounds),
                                maxSize := upper (sizeRange newBounds),
                                minDuration := lower (durationRange newBounds),
                                maxDuration := upper (durationRange newBounds),
                                minDate := lower (dateRange newBounds),
                                maxDate := upper (dateRange newBounds)\<rparr>\<rparr>
                 in case cachedDurations e of
                      Rejects \<Rightarrow> Thrown (s3\<lparr>isLoading := False\<rparr>)
                    | Resolves cached \<Rightarrow>
                        (let currentDurations = (case cached of None \<Rightarrow> Map.empty | Some m \<Rightarrow> m);
                             unMetadataFiles =
                               filter (\<lambda>f. lookupOrZero currentDurations (id_of f) = 0) files
                         in Returned (s3\<lparr>metadataQueue := unMetadataFiles, allFiles := files,
                                         availableFolders := folders, isLoading := False\<rparr>)))
              else Returned (s2\<lparr>allFiles := files, availableFolders := folders,
                               isLoading := False\<rparr>)))"

subsection \<open>Metadata enrichment (the effect around \<^verbatim>\<open>enrichMetadata\<close>, App.tsx)\<close>

text \<open>
  What the environment answers for one file of the queue: \<^verbatim>\<open>getFile()\<close> throws, or
  \<^verbatim>\<open>getAudioDuration\<close> resolves with a number, which is 0 after an error of the audio element or
  after the 2 second timeout.
\<close>

datatype probe = GetFileThrows | Measured real

record batchState =
  batch :: "string \<rightharpoonup> real"
  batchSize :: nat
  lastBatchTime :: real
  lastMaxDuration :: real

text \<open>The \<^verbatim>\<open>try\<close> block of one iteration.\<close>

definition probeFile :: "(item \<Rightarrow> probe) \<Rightarrow> item \<Rightarrow> batchState \<Rightarrow> batchState" where
  "probeFile pr fileItem b =
     (case pr fileItem of
        GetFileThrows \<Rightarrow> b
      | Measured d \<Rightarrow>
          if d > 0 then
            b\<lparr>batch := (batch b)(id_of fileItem \<mapsto> d),
              batchSize := batchSize b + 1,
              lastMaxDuration := (if d > lastMaxDuration b then of_int \<lceil>d\<rceil> else lastMaxDuration b)\<rparr>
          else b)"

text \<open>The flush: the state update, the write of the merged record to the persisted cache and
  the widening of the duration bound.  \<open>boundsMax\<close> is \<^verbatim>\<open>bounds.duration.max\<close> as the effect
  closed over it.\<close>

definition flush :: "real \<Rightarrow> batchState \<Rightarrow> app \<Rightarrow> app" where
  "flush boundsMax b s =
     (let next = durations s ++ batch b;
          s1 = s\<lparr>durations := next, persistedDurations := persistedDurations s @ [next]\<rparr>
      in if lastMaxDuration b > boundsMax then
           s1\<lparr>bounds := (bounds s1)
                 \<lparr>durationRange := (durationRange (bounds s1))
                    \<lparr>upper := max (upper (durationRange (bounds s1))) (lastMaxDuration b)\<rparr>\<rparr>\<rparr>
         else s1)"

text \<open>
  The \<^verbatim>\<open>while\<close> loop.  \<open>pr\<close> answers the probes, \<open>clock k\<close> is the value of the \<open>k\<close>-th call of
  \<^verbatim>\<open>performance.now()\<close>.  The queue is the ref \<^verbatim>\<open>metadataQueueRef\<close>; the loop takes its first
  entry in each iteration, so the queue is the list the recursion runs over and the field is
  kept equal to what is left.
\<close>

fun enrichLoop ::
  "(item \<Rightarrow> probe) \<Rightarrow> (nat \<Rightarrow> real) \<Rightarrow> real \<Rightarrow> nat \<Rightarrow> item list \<Rightarrow> batchState \<Rightarrow> app \<Rightarrow> app" where
  "enrichLoop pr clock boundsMax k [] b s = s\<lparr>isEnriching := False\<rparr>"
| "enrichLoop pr clock boundsMax k (fileItem # rest) b s =
     (let s1 = s\<lparr>metadataQueue := rest\<rparr>;
          b1 = probeFile pr fileItem b;
          now = clock k
      in if batchSize b1 \<ge> 20 \<or> (now - lastBatchTime b1 > 500 \<and> batchSize b1 > 0)
            \<or> length rest = 0
         then enrichLoop pr clock boundsMax (k + 1) rest
                \<lparr>batch = Map.empty, batchSize = 0, lastBatchTime = now,
                 lastMaxDuration = lastMaxDuration b1\<rparr>
                (flush boundsMax b1 s1)
         else enrichLoop pr clock boundsMax (k + 1) rest b1 s1)"

text \<open>The effect: it does nothing before the start, with an empty queue or while a pass is
  running.\<close>

definition enrichMetadata :: "(item \<Rightarrow> probe) \<Rightarrow> (nat \<Rightarrow> real) \<Rightarrow> app \<Rightarrow> app" where
  "enrichMetadata pr clock s =
     (if \<not> isStarted s \<or> length (metadataQueue s) = 0 \<or> isEnriching s then s
      else enrichLoop pr clock (upper (durationRange (bounds s))) 1 (metadataQueue s)
             \<lparr>batch = Map.empty, batchSize = 0, lastBatchTime = clock 0,
              lastMaxDuration = upper (durationRange (bounds s))\<rparr>
             (s\<lparr>isEnriching := True\<rparr>))"

subsection \<open>Batch relocation (\<^verbatim>\<open>handleBatchMove\<close>, App.tsx)\<close>

text \<open>What the file system answers for one source entry, call by call.\<close>

record moveEnv =
  getFileOk :: bool
  getFileHandleOk :: bool
  createWritableOk :: bool
  writeOk :: bool
  closeOk :: bool
  removeEntryOk :: bool

text \<open>What was done to the disk: a file created under the target, its contents written and
  closed, an entry removed from its parent.\<close>

datatype diskOp = Created handle string | Written handle string | Removed handle string

text \<open>One iteration of the \<^verbatim>\<open>for\<close> loop: \<open>Inl\<close> when a call throws, with what had been done to
  the disk by then.\<close>

definition moveOne ::
  "moveEnv \<Rightarrow> handle \<Rightarrow> item \<Rightarrow> nat \<times> diskOp list \<Rightarrow> diskOp list + nat \<times> diskOp list" where
  "moveOne io targetHandle source acc =
     (let (movedCount, disk) = acc
      in if kind_of source \<noteq> File then Inr (movedCount, disk)
         else if \<not> getFileOk io then Inl disk
         else if \<not> getFileHandleOk io then Inl disk
         else if \<not> createWritableOk io then Inl (disk @ [Created targetHandle (name_of source)])
         else if \<not> writeOk io then Inl (disk @ [Created targetHandle (name_of source)])
         else if \<not> closeOk io then Inl (disk @ [Created targetHandle (name_of source)])
         else
           (let disk1 = disk @ [Created targetHandle (name_of source),
                                Written targetHandle (name_of source)];
                disk2 = (case parentHandle_of source of
                           None \<Rightarrow> disk1
                         | Some ph \<Rightarrow> if removeEntryOk io
                                      then disk1 @ [Removed ph (name_of source)] else disk1)
            in Inr (movedCount + 1, disk2)))"

fun moveLoop ::
  "(item \<Rightarrow> moveEnv) \<Rightarrow> handle \<Rightarrow> item list \<Rightarrow> nat \<times> diskOp list \<Rightarrow> diskOp list + nat \<times> diskOp list" where
  "moveLoop io targetHandle [] acc = Inr acc"
| "moveLoop io targetHandle (source # rest) acc =
     (case moveOne (io source) targetHandle source acc of
        Inl disk \<Rightarrow> Inl disk
      | Inr acc' \<Rightarrow> moveLoop io targetHandle rest acc')"

text \<open>The entries to move: the selected ones found among all files, else the active one.  An
  empty id is falsy.\<close>

definition itemsToMove :: "app \<Rightarrow> item list" where
  "itemsToMove s =
     (if length (selectedIds s) > 0 then
        concat (map (\<lambda>i. case find (\<lambda>f. id_of f = i) (allFiles s) of
                              None \<Rightarrow> [] | Some item \<Rightarrow> [item]) (selectedIds s))
      else (case activeFileId s of
              None \<Rightarrow> []
            | Some a \<Rightarrow> if a = [] then []
                        else (case find (\<lambda>f. id_of f = a) (allFiles s) of
                                None \<Rightarrow> [] | Some activeFile \<Rightarrow> [activeFile])))"

text \<open>The result is the state and what was done to the disk.  \<open>io\<close> answers the file system
  calls for each source, \<open>e\<close> the rescan at the end.\<close>

definition handleBatchMove ::
  "(item \<Rightarrow> moveEnv) \<Rightarrow> scanEnv \<Rightarrow> item \<Rightarrow> app \<Rightarrow> app \<times> diskOp list" where
  "handleBatchMove io e target s =
     (if length (itemsToMove s) = 0 \<or> kind_of target \<noteq> Directory then (s, [])
      else
        (let s1 = s\<lparr>isLoading := True\<rparr>
         in case moveLoop io (handle_of target) (itemsToMove s) (0, []) of
              Inl disk \<Rightarrow> (s1\<lparr>error := Some BatchMoveFailed, isLoading := False\<rparr>, disk)
            | Inr (movedCount, disk) \<Rightarrow>
                (case refreshFiles e (s1\<lparr>selectedIds := []\<rparr>) of
                   Thrown s2 \<Rightarrow> (s2\<lparr>error := Some BatchMoveFailed, isLoading := False\<rparr>, disk)
                 | Returned s2 \<Rightarrow> (s2\<lparr>error := Some (Moved movedCount), isLoading := False\<rparr>, disk))))"

subsection \<open>Observations used in the statements\<close>

fun stateOf :: "'s completion \<Rightarrow> 's" where
  "stateOf (Returned s) = s"
| "stateOf (Thrown s) = s"

text \<open>A probe that found a duration: the only ones the loop puts into the batch.\<close>

fun probeOk :: "probe \<Rightarrow> bool" where
  "probeOk GetFileThrows = False"
| "probeOk (Measured d) = (d > 0)"

text \<open>All reads and writes for one source succeed (the removal of the original may fail).\<close>

definition moveOk :: "moveEnv \<Rightarrow> bool" where
  "moveOk io = (getFileOk io \<and> getFileHandleOk io \<and> createWritableOk io \<and> writeOk io \<and> closeOk io)"

text \<open>The names of the files whose contents were written under the target, in order.\<close>

fun writtenNames :: "diskOp list \<Rightarrow> string list" where
  "writtenNames [] = []"
| "writtenNames (Written h nm # ops) = nm # writtenNames ops"
| "writtenNames (_ # ops) = writtenNames ops"

definition allOk :: moveEnv where
  "allOk = \<lparr>getFileOk = True, getFileHandleOk = True, createWritableOk = True, writeOk = True,
            closeOk = True, removeEntryOk = True\<rparr>"

text \<open>A library of \<open>n\<close> files with distinct ids.\<close>

definition sampleName :: "nat \<Rightarrow> string" where
  "sampleName i = replicate i CHR ''x'' @ ''.wav''"

definition library :: "nat \<Rightarrow> item list" where
  "library n = map (\<lambda>i. audioFile (sampleName i) i 100) [0..<n]"

text \<open>\<^verbatim>\<open>bounds.duration.max\<close>.\<close>

abbreviation durationMax :: "app \<Rightarrow> real" where
  "durationMax s \<equiv> upper (durationRange (bounds s))"

text \<open>A started session on a directory, with the given files scanned and queued for
  enrichment.\<close>

definition startedApp :: "item list \<Rightarrow> app" where
  "startedApp files =
     (initialApp 2000)\<lparr>isStarted := True, rootHandle := Some (FileSystemDirectoryHandle 0),
                       allFiles := files, metadataQueue := files\<rparr>"

text \<open>A rescan that finds the given entries; the persisted cache holds \<open>cached\<close>.\<close>

definition rescanEnv :: "item list \<Rightarrow> (string \<rightharpoonup> real) \<Rightarrow> scanEnv" where
  "rescanEnv tree cached = \<lparr>rootName = ''library'', scanned = tree, cachedDurations = Resolves (Some cached)\<rparr>"

text \<open>The entries one pass adds to the duration map: the probes of the queue that found a
  duration, later ones over earlier ones.\<close>

fun measuredMap :: "(item \<Rightarrow> probe) \<Rightarrow> item list \<Rightarrow> (string \<rightharpoonup> real)" where
  "measuredMap pr [] = Map.empty"
| "measuredMap pr (f # fs) =
     (case pr f of
        Measured d \<Rightarrow> if d > 0 then [id_of f \<mapsto> d] ++ measuredMap pr fs else measuredMap pr fs
      | GetFileThrows \<Rightarrow> measuredMap pr fs)"

text \<open>Three files selected for a move, and the folder they are moved to.\<close>

definition selectionApp :: app where
  "selectionApp = (startedApp [fileA, fileB, fileC])\<lparr>selectedIds := [''a.wav'', ''b.wav'', ''c.wav'']\<rparr>"

definition targetFolder :: item where
  "targetFolder = folderOf ''sorted'' []"

text \<open>A file system on which the read of \<open>b.wav\<close> fails and every other call succeeds.\<close>

definition failingRead :: "item \<Rightarrow> moveEnv" where
  "failingRead src = (if id_of src = ''b.wav'' then allOk\<lparr>getFileOk := False\<rparr> else allOk)"

text \<open>A strict linear order on the values a comparator looks at; on two numbers and on two
  strings it is \<^const>\<open>js_less\<close>.\<close>

fun jsLt :: "jsval \<Rightarrow> jsval \<Rightarrow> bool" where
  "jsLt (Num a) (Num b) = (a < b)"
| "jsLt (Str a) (Str b) = str_less a b"
| "jsLt (Num a) (Str b) = True"
| "jsLt (Str a) (Num b) = False"

text \<open>The order a sort direction imposes on the values.\<close>

definition ordLt :: "sortOrder \<Rightarrow> jsval \<Rightarrow> jsval \<Rightarrow> bool" where
  "ordLt ord x y = (if ord = Asc then jsLt x y else jsLt y x)"

section \<open>Properties\<close>

subsection \<open>Words of a query\<close>

lemma wordsOf_blank: "\<forall>c\<in>set s. isWhiteSpace c \<Longrightarrow> wordsOf s = []"
  by (subst wordsOf.simps) (simp add: dropWhile_eq_Nil_conv [THEN iffD2])

lemma wordsOf_leading:
  "\<forall>c\<in>set l. isWhiteSpace c \<Longrightarrow> wordsOf (l @ t) = wordsOf t"
  by (subst wordsOf.simps, subst (2) wordsOf.simps) (simp add: dropWhile_append)

lemma takeWhile_before_space:
  "isWhiteSpace sp \<Longrightarrow>
   takeWhile (\<lambda>c. \<not> isWhiteSpace c) (xs @ sp # b) = takeWhile (\<lambda>c. \<not> isWhiteSpace c) xs"
  by (induction xs) auto

lemma dropWhile_before_space:
  "isWhiteSpace sp \<Longrightarrow>
   dropWhile (\<lambda>c. \<not> isWhiteSpace c) (xs @ sp # b) = dropWhile (\<lambda>c. \<not> isWhiteSpace c) xs @ sp # b"
  by (induction xs) auto

lemma wordsOf_append_space:
  "isWhiteSpace sp \<Longrightarrow> wordsOf (a @ sp # b) = wordsOf a @ wordsOf b"
proof (induction a rule: wordsOf.induct)
  case (1 s)
  show ?case
  proof (cases "dropWhile isWhiteSpace s")
    case Nil
    then have blank: "\<forall>c\<in>set s. isWhiteSpace c" by (simp add: dropWhile_eq_Nil_conv)
    then have "wordsOf (s @ sp # b) = wordsOf (sp # b)" by (rule wordsOf_leading)
    also have "\<dots> = wordsOf b" using wordsOf_leading [of "[sp]" b] 1(2) by simp
    finally show ?thesis using wordsOf_blank [OF blank] by simp
  next
    case (Cons c cs)
    let ?l = "takeWhile isWhiteSpace s"
    have s: "s = ?l @ c # cs" using Cons by (metis takeWhile_dropWhile_id)
    have l: "\<forall>x\<in>set ?l. isWhiteSpace x" by (metis set_takeWhileD)
    have "wordsOf (s @ sp # b) = wordsOf ((c # cs) @ sp # b)"
      using wordsOf_leading [OF l, of "(c # cs) @ sp # b"] s by (metis append_assoc)
    also have "\<dots> = takeWhile (\<lambda>c. \<not> isWhiteSpace c) (c # cs)
                  # wordsOf (dropWhile (\<lambda>c. \<not> isWhiteSpace c) (c # cs) @ sp # b)"
    proof -
      define t where "t = c # cs"
      have c: "\<not> isWhiteSpace c" using Cons by (metis dropWhile_eq_Cons_conv)
      then have d: "dropWhile isWhiteSpace (t @ sp # b) = t @ sp # b"
        by (simp add: t_def)
      have e: "t @ sp # b = c # (cs @ sp # b)" by (simp add: t_def)
      have "wordsOf (t @ sp # b) =
              takeWhile (\<lambda>c. \<not> isWhiteSpace c) (t @ sp # b)
              # wordsOf (dropWhile (\<lambda>c. \<not> isWhiteSpace c) (t @ sp # b))"
        by (subst wordsOf.simps, subst d, subst e, simp only: list.case, simp only: e [symmetric])
      then show ?thesis
        by (simp only: takeWhile_before_space [OF 1(2)] dropWhile_before_space [OF 1(2)] t_def)
    qed
    also have "\<dots> = takeWhile (\<lambda>c. \<not> isWhiteSpace c) (c # cs)
                  # (wordsOf (dropWhile (\<lambda>c. \<not> isWhiteSpace c) (c # cs)) @ wordsOf b)"
      using 1(1) [OF Cons 1(2)] by simp
    also have "\<dots> = wordsOf s @ wordsOf b"
      by (subst (2) wordsOf.simps) (simp add: Cons del: takeWhile.simps dropWhile.simps)
    finally show ?thesis .
  qed
qed

lemma wordsOf_trailing:
  "\<forall>c\<in>set r. isWhiteSpace c \<Longrightarrow> wordsOf (t @ r) = wordsOf t"
proof (cases r)
  case Nil then show ?thesis by simp
next
  case (Cons c r')
  assume a: "\<forall>c\<in>set r. isWhiteSpace c"
  then have "wordsOf (t @ c # r') = wordsOf t @ wordsOf r'"
    using Cons by (simp add: wordsOf_append_space)
  moreover have "wordsOf r' = []" using a Cons by (simp add: wordsOf_blank)
  ultimately show ?thesis using Cons by simp
qed

lemma trim_decomp:
  "\<exists>l r. s = l @ trim s @ r \<and> (\<forall>c\<in>set l. isWhiteSpace c) \<and> (\<forall>c\<in>set r. isWhiteSpace c)"
proof -
  let ?l = "takeWhile isWhiteSpace s"
  let ?m = "dropWhile isWhiteSpace s"
  let ?r = "rev (takeWhile isWhiteSpace (rev ?m))"
  have "rev ?m = takeWhile isWhiteSpace (rev ?m) @ dropWhile isWhiteSpace (rev ?m)" by simp
  then have "?m = rev (dropWhile isWhiteSpace (rev ?m)) @ ?r"
    by (metis rev_append rev_rev_ident)
  then have "s = ?l @ trim s @ ?r"
    unfolding trim_def by (metis takeWhile_dropWhile_id)
  moreover have "\<forall>c\<in>set ?l. isWhiteSpace c" by (metis set_takeWhileD)
  moreover have "\<forall>c\<in>set ?r. isWhiteSpace c" by (metis set_rev set_takeWhileD)
  ultimately show ?thesis by blast
qed

lemma wordsOf_trim: "wordsOf (trim s) = wordsOf s"
proof -
  obtain l r where s: "s = l @ trim s @ r" and l: "\<forall>c\<in>set l. isWhiteSpace c"
    and r: "\<forall>c\<in>set r. isWhiteSpace c"
    using trim_decomp by blast
  have "wordsOf s = wordsOf (l @ trim s @ r)" using s by simp
  also have "\<dots> = wordsOf (trim s @ r)" using l by (rule wordsOf_leading)
  also have "\<dots> = wordsOf (trim s)" using r by (rule wordsOf_trailing)
  finally show ?thesis by simp
qed

lemma trim_ends:
  assumes "trim s \<noteq> []"
  shows "\<not> isWhiteSpace (hd (trim s))" "\<not> isWhiteSpace (last (trim s))"
proof -
  let ?m = "dropWhile isWhiteSpace s"
  let ?d = "dropWhile isWhiteSpace (rev ?m)"
  have d: "?d \<noteq> []" using assms by (simp add: trim_def)
  then have "\<not> isWhiteSpace (hd ?d)" by (rule hd_dropWhile)
  then show "\<not> isWhiteSpace (last (trim s))"
    using d by (simp add: trim_def last_rev)
  have m: "?m \<noteq> []" using d by (cases ?m) auto
  then have hm: "\<not> isWhiteSpace (hd ?m)" by (rule hd_dropWhile)
  have "rev ?m = takeWhile isWhiteSpace (rev ?m) @ ?d" by simp
  then have "?m = rev ?d @ rev (takeWhile isWhiteSpace (rev ?m))"
    by (metis rev_append rev_rev_ident)
  then have "hd ?m = hd (rev ?d)" using d by (metis hd_append2 rev_is_Nil_conv)
  then show "\<not> isWhiteSpace (hd (trim s))" using hm by (simp add: trim_def)
qed

lemma splitWS_wordsOf:
  "t \<noteq> [] \<Longrightarrow> \<not> isWhiteSpace (hd t) \<Longrightarrow> \<not> isWhiteSpace (last t) \<Longrightarrow> splitWS t = wordsOf t"
proof (induction t rule: splitWS.induct)
  case (1 s)
  have hd: "dropWhile isWhiteSpace s = s" using 1(2,3) by (cases s) auto
  obtain c cs where s: "s = c # cs" using 1(2) by (cases s) auto
  have w: "wordsOf s = takeWhile (\<lambda>c. \<not> isWhiteSpace c) s
                       # wordsOf (dropWhile (\<lambda>c. \<not> isWhiteSpace c) s)"
    by (subst wordsOf.simps, subst hd, subst s, simp only: list.case, simp only: s [symmetric])
  show ?case
  proof (cases "dropWhile (\<lambda>c. \<not> isWhiteSpace c) s")
    case Nil
    then have "takeWhile (\<lambda>c. \<not> isWhiteSpace c) s = s"
      by (metis append_Nil2 takeWhile_dropWhile_id)
    moreover have "wordsOf [] = []" by (simp add: wordsOf_blank)
    ultimately have "wordsOf s = [s]" using w by (simp only: Nil)
    moreover have "splitWS s = [s]" by (subst splitWS.simps) (simp only: Nil list.case)
    ultimately show ?thesis by simp
  next
    case (Cons x rest)
    have x: "isWhiteSpace x" using Cons by (metis dropWhile_eq_Cons_conv)
    have sdec: "s = takeWhile (\<lambda>c. \<not> isWhiteSpace c) s @ x # rest"
      using Cons by (metis takeWhile_dropWhile_id)
    have last_s: "last s = last (x # rest)" using sdec by (metis last_appendR list.distinct(1))
    have rest: "rest \<noteq> []" using last_s x 1(4) by auto
    then have lr: "last rest = last s" using last_s by simp
    let ?d = "dropWhile isWhiteSpace rest"
    have "\<exists>y\<in>set rest. \<not> isWhiteSpace y" using rest lr 1(4) by (metis last_in_set)
    then have d: "?d \<noteq> []" by (simp add: dropWhile_eq_Nil_conv)
    then have hdd: "\<not> isWhiteSpace (hd ?d)" by (rule hd_dropWhile)
    have "rest = takeWhile isWhiteSpace rest @ ?d" by simp
    then have "last rest = last ?d" using d by (metis last_appendR)
    then have ld: "\<not> isWhiteSpace (last ?d)" using lr 1(4) by simp
    have ih: "splitWS ?d = wordsOf ?d" using 1(1) [OF Cons d hdd ld] .
    have "wordsOf (x # rest) = wordsOf rest" using wordsOf_leading [of "[x]" rest] x by simp
    also have "\<dots> = wordsOf ?d"
      using wordsOf_leading [of "takeWhile isWhiteSpace rest" ?d]
      by (metis set_takeWhileD takeWhile_dropWhile_id)
    finally have "wordsOf (dropWhile (\<lambda>c. \<not> isWhiteSpace c) s) = splitWS ?d"
      using ih Cons by simp
    then show ?thesis using w Cons by (subst splitWS.simps) simp
  qed
qed

lemma trim_Nil_iff: "trim s = [] \<longleftrightarrow> (\<forall>c\<in>set s. isWhiteSpace c)"
proof
  assume t: "trim s = []"
  show "\<forall>c\<in>set s. isWhiteSpace c"
  proof (rule ccontr)
    assume "\<not> (\<forall>c\<in>set s. isWhiteSpace c)"
    then have m: "dropWhile isWhiteSpace s \<noteq> []" by (simp add: dropWhile_eq_Nil_conv)
    then have "\<not> isWhiteSpace (hd (dropWhile isWhiteSpace s))" by (rule hd_dropWhile)
    moreover have "hd (dropWhile isWhiteSpace s) \<in> set (rev (dropWhile isWhiteSpace s))"
      using m by simp
    ultimately have "dropWhile isWhiteSpace (rev (dropWhile isWhiteSpace s)) \<noteq> []"
      by (metis dropWhile_eq_Nil_conv)
    then show False using t by (simp add: trim_def)
  qed
next
  assume "\<forall>c\<in>set s. isWhiteSpace c"
  then have d: "dropWhile isWhiteSpace s = []" by (simp add: dropWhile_eq_Nil_conv)
  show "trim s = []" by (simp only: trim_def d rev.simps dropWhile.simps)
qed

lemma matchSmartSearch_words:
  "matchSmartSearch R text q = list_all (matchTerm R text) (wordsOf q)"
proof (cases "trim q = []")
  case True
  then have "wordsOf q = []" by (simp add: trim_Nil_iff wordsOf_blank)
  then show ?thesis using True by (simp add: matchSmartSearch_def)
next
  case False
  then have "splitWS (trim q) = wordsOf (trim q)"
    using trim_ends [OF False] by (simp add: splitWS_wordsOf)
  then show ?thesis using False by (simp add: matchSmartSearch_def wordsOf_trim)
qed

subsection \<open>Smart search: all terms must match\<close>

text \<open>
  Claim C7.  For every text and every two queries \<open>q1\<close> and \<open>q2\<close>, matching against the
  queries joined by a blank is the conjunction of the two matches, whatever the regular
  expression engine; and a query that is empty or consists of white space only matches every
  text.
\<close>

theorem matchSmartSearch_conjunction:
  "matchSmartSearch R text (q1 @ '' '' @ q2)
     = (matchSmartSearch R text q1 \<and> matchSmartSearch R text q2)
   \<and> ((\<forall>c\<in>set q. isWhiteSpace c) \<longrightarrow> matchSmartSearch R text q)"
proof -
  have "isWhiteSpace CHR '' ''" by (simp add: isWhiteSpace_def)
  then have "wordsOf (q1 @ '' '' @ q2) = wordsOf q1 @ wordsOf q2"
    using wordsOf_append_space [of "CHR '' ''" q1 q2] by simp
  then show ?thesis
    by (simp add: matchSmartSearch_words wordsOf_blank)
qed

theorem matchSmartSearch_conjunction_witness:
  "matchSmartSearch (\<lambda>p f. None) ''drum_loop.wav'' (''loop'' @ '' '' @ ''-kick'')
     = (matchSmartSearch (\<lambda>p f. None) ''drum_loop.wav'' ''loop''
        \<and> matchSmartSearch (\<lambda>p f. None) ''drum_loop.wav'' ''-kick'')
   \<and> list_all isWhiteSpace '' '' \<and> matchSmartSearch (\<lambda>p f. None) ''drum_loop.wav'' '' ''"
  using matchSmartSearch_conjunction [of "\<lambda>p f. None" "''drum_loop.wav''" "''loop''" "''-kick''" "'' ''"]
  by (simp add: isWhiteSpace_def)

subsection \<open>Smart search: a single term\<close>

lemma str_includes_iff: "str_includes t s \<longleftrightarrow> (\<exists>p q. t = p @ s @ q)"
proof (induction t)
  case Nil
  then show ?case by auto
next
  case (Cons c cs)
  show ?case
  proof
    assume "str_includes (c # cs) s"
    then consider "prefix s (c # cs)" | "str_includes cs s" by auto
    then show "\<exists>p q. c # cs = p @ s @ q"
    proof cases
      case 1
      then obtain q where "c # cs = s @ q" by (auto simp: prefix_def)
      then have "c # cs = [] @ s @ q" by simp
      then show ?thesis by blast
    next
      case 2
      then obtain p q where "cs = p @ s @ q" using Cons.IH by blast
      then have "c # cs = (c # p) @ s @ q" by simp
      then show ?thesis by blast
    qed
  next
    assume "\<exists>p q. c # cs = p @ s @ q"
    then obtain p q where e: "c # cs = p @ s @ q" by blast
    show "str_includes (c # cs) s"
    proof (cases p)
      case Nil
      then have "prefix s (c # cs)" using e by (simp add: prefix_def)
      then show ?thesis by simp
    next
      case (Cons x p')
      then have "cs = p' @ s @ q" using e by simp
      then have "str_includes cs s" using Cons.IH by blast
      then show ?thesis by simp
    qed
  qed
qed

lemma trim_no_space: "\<forall>c\<in>set s. \<not> isWhiteSpace c \<Longrightarrow> trim s = s"
proof -
  assume a: "\<forall>c\<in>set s. \<not> isWhiteSpace c"
  have d: "\<And>xs. \<forall>c\<in>set xs. \<not> isWhiteSpace c \<Longrightarrow> dropWhile isWhiteSpace xs = xs"
    by (case_tac xs) auto
  have "dropWhile isWhiteSpace (rev s) = rev s" using a by (intro d) simp
  then show ?thesis using d [OF a] by (simp add: trim_def)
qed

lemma splitWS_no_space: "\<forall>c\<in>set s. \<not> isWhiteSpace c \<Longrightarrow> splitWS s = [s]"
proof -
  assume "\<forall>c\<in>set s. \<not> isWhiteSpace c"
  then have d: "dropWhile (\<lambda>c. \<not> isWhiteSpace c) s = []" by (simp add: dropWhile_eq_Nil_conv)
  show ?thesis by (subst splitWS.simps) (simp only: d list.case)
qed

lemma matchSmartSearch_single:
  "term \<noteq> [] \<Longrightarrow> \<forall>c\<in>set term. \<not> isWhiteSpace c \<Longrightarrow>
   matchSmartSearch R text term = matchTerm R text term"
  by (simp add: matchSmartSearch_def trim_no_space splitWS_no_space)

lemma takeWhile_until:
  "c \<notin> set xs \<Longrightarrow> takeWhile (\<lambda>x. x \<noteq> c) (xs @ c # ys) = xs"
  by (induction xs) auto

lemma lastIndexOf_slash:
  "c \<notin> set f \<Longrightarrow> lastIndexOf (c # p @ c # f) c = int (length p) + 1"
proof -
  assume f: "c \<notin> set f"
  have "rev (c # p @ c # f) = rev f @ c # (rev p @ [c])" by simp
  moreover have "takeWhile (\<lambda>x. x \<noteq> c) (rev f @ c # (rev p @ [c])) = rev f"
    using f by (intro takeWhile_until) simp
  ultimately have "takeWhile (\<lambda>x. x \<noteq> c) (rev (c # p @ c # f)) = rev f" by simp
  then show ?thesis by (simp add: lastIndexOf_def)
qed

lemma lastIndexOf_single:
  "c \<notin> set s \<Longrightarrow> lastIndexOf (c # s) c = 0"
proof -
  assume s: "c \<notin> set s"
  have "takeWhile (\<lambda>x. x \<noteq> c) (rev s @ [c]) = rev s" using s by (intro takeWhile_until) simp
  then show ?thesis by (simp add: lastIndexOf_def)
qed

lemma matchTerm_exclusion:
  "matchTerm R text (CHR ''-'' # rest)
     = (rest = [] \<or> \<not> str_includes (toLowerCase text) (toLowerCase rest))"
  by (simp add: matchTerm_def startsWith_def substringFrom_def toLowerCase_def)

lemma matchTerm_regexp:
  assumes "CHR ''/'' \<notin> set flags"
  shows "matchTerm R text (CHR ''/'' # pattern @ CHR ''/'' # flags)
     = (case R pattern (if flags = [] then ''i'' else flags) of
          Some re \<Rightarrow> re text
        | None \<Rightarrow> str_includes (toLowerCase text)
                    (toLowerCase (CHR ''/'' # pattern @ CHR ''/'' # flags)))"
proof -
  have l: "lastIndexOf (CHR ''/'' # pattern @ CHR ''/'' # flags) CHR ''/'' = int (length pattern) + 1"
    using assms by (rule lastIndexOf_slash)
  show ?thesis
    by (simp add: matchTerm_def startsWith_def l substring_def substringFrom_def nat_add_distrib
             del: toLowerCase_def)
qed

lemma matchTerm_plain:
  assumes "\<not> startsWith term CHR ''-''"
    and "\<not> (startsWith term CHR ''/'' \<and> CHR ''/'' \<in> set (tl term))"
  shows "matchTerm R text term = str_includes (toLowerCase text) (toLowerCase term)"
proof (cases "startsWith term CHR ''/''")
  case True
  then obtain s where t: "term = CHR ''/'' # s" by (auto simp: startsWith_def split: list.splits)
  then have "CHR ''/'' \<notin> set s" using assms(2) True by simp
  then have "lastIndexOf term CHR ''/'' = 0" unfolding t by (rule lastIndexOf_single)
  then show ?thesis using assms(1) by (simp add: matchTerm_def)
next
  case False
  then show ?thesis using assms(1) by (simp add: matchTerm_def)
qed

lemma matchSmartSearch_exclusion:
  "\<forall>c\<in>set rest. \<not> isWhiteSpace c \<Longrightarrow>
   matchSmartSearch R text (CHR ''-'' # rest)
     = (rest = [] \<or> \<not> str_includes (toLowerCase text) (toLowerCase rest))"
  by (simp add: matchSmartSearch_single matchTerm_exclusion isWhiteSpace_def)

lemma matchSmartSearch_regexp:
  assumes "\<forall>c\<in>set (pattern @ flags). \<not> isWhiteSpace c" and "CHR ''/'' \<notin> set flags"
  shows "matchSmartSearch R text (CHR ''/'' # pattern @ CHR ''/'' # flags)
     = (case R pattern (if flags = [] then ''i'' else flags) of
          Some re \<Rightarrow> re text
        | None \<Rightarrow> str_includes (toLowerCase text)
                    (toLowerCase (CHR ''/'' # pattern @ CHR ''/'' # flags)))"
proof -
  have "\<not> isWhiteSpace CHR ''/''" by (simp add: isWhiteSpace_def)
  then have "\<forall>c\<in>set (CHR ''/'' # pattern @ CHR ''/'' # flags). \<not> isWhiteSpace c"
    using assms(1) by auto
  then have "matchSmartSearch R text (CHR ''/'' # pattern @ CHR ''/'' # flags)
               = matchTerm R text (CHR ''/'' # pattern @ CHR ''/'' # flags)"
    by (intro matchSmartSearch_single) simp_all
  then show ?thesis using matchTerm_regexp [OF assms(2), of R "text" pattern] by simp
qed

lemma matchSmartSearch_plain:
  "term \<noteq> [] \<Longrightarrow> \<forall>c\<in>set term. \<not> isWhiteSpace c \<Longrightarrow> \<not> startsWith term CHR ''-'' \<Longrightarrow>
   \<not> (startsWith term CHR ''/'' \<and> CHR ''/'' \<in> set (tl term)) \<Longrightarrow>
   matchSmartSearch R text term = str_includes (toLowerCase text) (toLowerCase term)"
  by (simp add: matchSmartSearch_single matchTerm_plain)

lemma matchSmartSearch_snare:
  assumes "R ''^snare'' ''i'' = Some (\<lambda>t. prefix ''snare'' (toLowerCase t))"
  shows "matchSmartSearch R t ''/^snare/i'' = prefix ''snare'' (toLowerCase t)"
proof -
  have n: "\<forall>c\<in>set (''^snare'' @ ''i''). \<not> isWhiteSpace c" "CHR ''/'' \<notin> set ''i''"
    by (simp_all add: isWhiteSpace_def)
  show ?thesis
    using matchSmartSearch_regexp [OF n, of R t] assms by simp
qed

text \<open>
  Claim C8.  For a query that is a single term: a term \<open>-rest\<close> fails exactly when \<open>rest\<close> is
  not empty and occurs in the text, ignoring case; a term \<open>/pattern/flags\<close> (the last slash
  after the first) is the engine's test of \<open>pattern\<close> under \<open>flags\<close>, or under \<open>i\<close> when no
  flags are given, and a plain substring test of the whole term, ignoring case, when the engine
  rejects the expression; every other term is a substring test ignoring case.  So
  \<open>-kick\<close> accepts \<open>drum_loop.wav\<close> and rejects \<open>kick_drum.wav\<close>, and with an engine that reads
  \<open>^snare\<close> under \<open>i\<close> as "starts with snare, ignoring case", \<open>/^snare/i\<close> accepts
  \<open>Snare_Top.wav\<close> and rejects \<open>Top_Snare.wav\<close>.
\<close>

theorem matchSmartSearch_term:
  "((\<forall>c\<in>set rest. \<not> isWhiteSpace c) \<longrightarrow>
      matchSmartSearch R text (CHR ''-'' # rest)
        = (rest = [] \<or> \<not> str_includes (toLowerCase text) (toLowerCase rest)))
   \<and> ((\<forall>c\<in>set (pattern @ flags). \<not> isWhiteSpace c) \<and> CHR ''/'' \<notin> set flags \<longrightarrow>
      matchSmartSearch R text (CHR ''/'' # pattern @ CHR ''/'' # flags)
        = (case R pattern (if flags = [] then ''i'' else flags) of
             Some re \<Rightarrow> re text
           | None \<Rightarrow> str_includes (toLowerCase text)
                       (toLowerCase (CHR ''/'' # pattern @ CHR ''/'' # flags))))
   \<and> (term \<noteq> [] \<and> (\<forall>c\<in>set term. \<not> isWhiteSpace c) \<and> \<not> startsWith term CHR ''-''
        \<and> \<not> (startsWith term CHR ''/'' \<and> CHR ''/'' \<in> set (tl term)) \<longrightarrow>
      matchSmartSearch R text term = str_includes (toLowerCase text) (toLowerCase term))
   \<and> matchSmartSearch R ''drum_loop.wav'' ''-kick''
   \<and> \<not> matchSmartSearch R ''kick_drum.wav'' ''-kick''
   \<and> (R ''^snare'' ''i'' = Some (\<lambda>t. prefix ''snare'' (toLowerCase t)) \<longrightarrow>
        matchSmartSearch R ''Snare_Top.wav'' ''/^snare/i''
        \<and> \<not> matchSmartSearch R ''Top_Snare.wav'' ''/^snare/i'')"
proof -
  have d: "matchSmartSearch R ''drum_loop.wav'' ''-kick''"
    by (simp add: matchSmartSearch_exclusion isWhiteSpace_def toLowerCase_def toLowerChar_def)
  have e: "\<not> matchSmartSearch R ''kick_drum.wav'' ''-kick''"
    by (simp add: matchSmartSearch_exclusion isWhiteSpace_def toLowerCase_def toLowerChar_def)
  have f: "R ''^snare'' ''i'' = Some (\<lambda>t. prefix ''snare'' (toLowerCase t)) \<longrightarrow>
        matchSmartSearch R ''Snare_Top.wav'' ''/^snare/i''
        \<and> \<not> matchSmartSearch R ''Top_Snare.wav'' ''/^snare/i''"
    by (simp add: matchSmartSearch_snare toLowerCase_def toLowerChar_def)
  show ?thesis
    using matchSmartSearch_exclusion [of rest R "text"]
      matchSmartSearch_regexp [of pattern flags R "text"]
      matchSmartSearch_plain [of "term" R "text"] d e f
    by blast
qed

text \<open>The witness runs the four cases with an engine that knows one expression only.\<close>

theorem matchSmartSearch_term_witness:
  "list_all (\<lambda>c. \<not> isWhiteSpace c) ''kick''
   \<and> \<not> matchSmartSearch (\<lambda>p f. if p = ''^snare'' \<and> f = ''i''
             then Some (\<lambda>t. prefix ''snare'' (toLowerCase t)) else None) ''Kick_Drum.wav'' ''-kick''
   \<and> list_all (\<lambda>c. \<not> isWhiteSpace c) (''^snare'' @ []) \<and> CHR ''/'' \<notin> set []
   \<and> matchSmartSearch (\<lambda>p f. if p = ''^snare'' \<and> f = ''i''
             then Some (\<lambda>t. prefix ''snare'' (toLowerCase t)) else None) ''Snare_Top.wav'' ''/^snare/''
   \<and> ''loop'' \<noteq> [] \<and> list_all (\<lambda>c. \<not> isWhiteSpace c) ''loop'' \<and> \<not> startsWith ''loop'' CHR ''-''
   \<and> \<not> (startsWith ''loop'' CHR ''/'' \<and> CHR ''/'' \<in> set (tl ''loop''))
   \<and> matchSmartSearch (\<lambda>p f. if p = ''^snare'' \<and> f = ''i''
             then Some (\<lambda>t. prefix ''snare'' (toLowerCase t)) else None) ''Drum_LOOP.wav'' ''loop''
   \<and> (\<lambda>p f. if p = ''^snare'' \<and> f = ''i''
             then Some (\<lambda>t. prefix ''snare'' (toLowerCase t)) else None) ''^snare'' ''i''
       = Some (\<lambda>t. prefix ''snare'' (toLowerCase t))
   \<and> matchSmartSearch (\<lambda>p f. if p = ''^snare'' \<and> f = ''i''
             then Some (\<lambda>t. prefix ''snare'' (toLowerCase t)) else None) ''Snare_Top.wav'' ''/^snare/i''
   \<and> \<not> matchSmartSearch (\<lambda>p f. if p = ''^snare'' \<and> f = ''i''
             then Some (\<lambda>t. prefix ''snare'' (toLowerCase t)) else None) ''Top_Snare.wav'' ''/^snare/i''"
  using matchSmartSearch_term [of "''kick''"
      "\<lambda>p f. if p = ''^snare'' \<and> f = ''i'' then Some (\<lambda>t. prefix ''snare'' (toLowerCase t)) else None"
      "''Kick_Drum.wav''" "''^snare''" "[]" "''loop''"]
    matchSmartSearch_term [of "[]"
      "\<lambda>p f. if p = ''^snare'' \<and> f = ''i'' then Some (\<lambda>t. prefix ''snare'' (toLowerCase t)) else None"
      "''Snare_Top.wav''" "''^snare''" "[]" "''loop''"]
    matchSmartSearch_term [of "[]"
      "\<lambda>p f. if p = ''^snare'' \<and> f = ''i'' then Some (\<lambda>t. prefix ''snare'' (toLowerCase t)) else None"
      "''Drum_LOOP.wav''" "''^snare''" "[]" "''loop''"]
  by (simp add: isWhiteSpace_def startsWith_def toLowerCase_def toLowerChar_def)

subsection \<open>Playback: next and previous entry\<close>

lemma findIndex_range: "- 1 \<le> findIndex P xs \<and> findIndex P xs < int (length xs)"
  by (induction xs) (auto simp: Let_def)

lemma findIndex_find: "find P xs = None \<longleftrightarrow> findIndex P xs = - 1"
proof (induction xs)
  case Nil
  then show ?case by simp
next
  case (Cons x xs)
  have "- 1 \<le> findIndex P xs" using findIndex_range [of P xs] by simp
  then show ?case using Cons by (auto simp: Let_def)
qed

lemma js_rem_nonneg: "0 \<le> a \<Longrightarrow> 0 < b \<Longrightarrow> js_rem a b = a mod b"
  by (cases "a = 0") (simp_all add: js_rem_def)

lemma js_rem_prev:
  assumes "- 1 \<le> i" and "1 \<le> L"
  shows "js_rem (i - 1 + L) L = (i - 1 + L) mod L"
proof (cases "0 \<le> i - 1 + L")
  case True
  then show ?thesis using assms by (simp add: js_rem_nonneg)
next
  case False
  then have "i = - 1" "L = 1" using assms by auto
  then show ?thesis by (simp add: js_rem_def)
qed

lemma atIndex_mod:
  "xs \<noteq> [] \<Longrightarrow> atIndex xs (k mod int (length xs)) = Some (xs ! nat (k mod int (length xs)))"
  by (simp add: atIndex_def)

text \<open>
  Claim C10.  With an empty filtered list, \<^verbatim>\<open>playNext\<close> and \<^verbatim>\<open>playPrev\<close> return at once: the
  player (state variables, refs and suspended loads) is what it was, so no load is started
  and no index is computed.
\<close>

theorem playNext_playPrev_empty:
  "playNext rnd e [] forceNext c = c \<and> playPrev rnd e [] c = c"
  by (simp add: playNext_def playPrev_def)

text \<open>The replay branch: an unforced \<^verbatim>\<open>playNext\<close> with looping on and the active entry in the
  list loads the active entry again, and starts it.\<close>

lemma playNext_replay:
  "map (id_of \<circ> taskItem)
     (tasks (playNext 0 (envOk 1) [fileA, fileB, fileC] False (playerAt (Some ''b.wav'') True)))
     = [''b.wav'']"
  by (simp add: playNext_def playFile_def playerAt_def initialApp_def
                fileA_def fileB_def fileC_def audioFile_def)

text \<open>
  Claim C9.  The claim stands under the condition of its source sentence: \<^verbatim>\<open>playNext\<close> first
  replays the active entry if it is not forced, looping is on and the active entry is in the
  list, and otherwise computes the next index.  For a filtered list of length \<open>L > 0\<close> with
  shuffle off, let \<open>i\<close> be the position of the active entry, or \<open>-1\<close> when it is not in the
  list.  Outside the replay branch (forced, or looping off, or the active entry not in the
  list) \<^verbatim>\<open>playNext\<close> loads the entry at \<open>(i + 1) mod L\<close>; \<^verbatim>\<open>playPrev\<close> always loads the entry at
  \<open>(i - 1 + L) mod L\<close>, with the current play state.
\<close>

theorem playNext_playPrev_index:
  assumes "filtered \<noteq> []" and "\<not> isRandom (state c)"
  shows "(forceNext \<or> \<not> isLooping (state c)
            \<or> findIndex (\<lambda>f. Some (id_of f) = activeFileId (state c)) filtered = - 1 \<longrightarrow>
          playNext rnd e filtered forceNext c
            = playFile e
                (filtered ! nat ((findIndex (\<lambda>f. Some (id_of f) = activeFileId (state c)) filtered + 1)
                                  mod int (length filtered)))
                (if forceNext then isPlaying (state c) else True) c)
       \<and> playPrev rnd e filtered c
            = playFile e
                (filtered ! nat ((findIndex (\<lambda>f. Some (id_of f) = activeFileId (state c)) filtered - 1
                                   + int (length filtered)) mod int (length filtered)))
                (isPlaying (state c)) c"
proof -
  let ?P = "\<lambda>f. Some (id_of f) = activeFileId (state c)"
  let ?i = "findIndex ?P filtered"
  let ?L = "int (length filtered)"
  have L: "1 \<le> ?L" using assms(1) by (cases filtered) auto
  have i: "- 1 \<le> ?i" using findIndex_range [of ?P filtered] by simp
  have nxt: "js_rem (?i + 1) ?L = (?i + 1) mod ?L"
    using i L by (intro js_rem_nonneg) auto
  have prv: "js_rem (?i - 1 + ?L) ?L = (?i - 1 + ?L) mod ?L"
    using i L by (rule js_rem_prev)
  have len: "length filtered \<noteq> 0" using assms(1) by simp
  have "playPrev rnd e filtered c
          = playFile e (filtered ! nat ((?i - 1 + ?L) mod ?L)) (isPlaying (state c)) c"
    unfolding playPrev_def Let_def
    by (simp only: len if_False assms(2) prv atIndex_mod [OF assms(1)] option.case)
  moreover have "playNext rnd e filtered forceNext c
          = playFile e (filtered ! nat ((?i + 1) mod ?L))
                     (if forceNext then isPlaying (state c) else True) c"
    if h: "forceNext \<or> \<not> isLooping (state c) \<or> ?i = - 1"
  proof -
    have "\<not> (\<not> forceNext \<and> isLooping (state c) \<and> find ?P filtered \<noteq> None)"
      using h findIndex_find [of ?P filtered] by auto
    then show ?thesis
      unfolding playNext_def Let_def
      by (simp only: len if_False assms(2) nxt atIndex_mod [OF assms(1)] option.case)
  qed
  ultimately show ?thesis by blast
qed

text \<open>With three entries: from the second entry the next is the third, from the third the
  next is the first, and from the first the previous is the third.\<close>

theorem playNext_playPrev_index_witness:
  "[fileA, fileB, fileC] \<noteq> [] \<and> \<not> isRandom (state (playerAt (Some ''b.wav'') False))
   \<and> playNext 0 (envOk 1) [fileA, fileB, fileC] False (playerAt (Some ''b.wav'') False)
       = playFile (envOk 1) fileC True (playerAt (Some ''b.wav'') False)
   \<and> playNext 0 (envOk 1) [fileA, fileB, fileC] False (playerAt (Some ''c.wav'') False)
       = playFile (envOk 1) fileA True (playerAt (Some ''c.wav'') False)
   \<and> playPrev 0 (envOk 1) [fileA, fileB, fileC] (playerAt (Some ''a.wav'') False)
       = playFile (envOk 1) fileC False (playerAt (Some ''a.wav'') False)"
  using playNext_playPrev_index [of "[fileA, fileB, fileC]" "playerAt (Some ''b.wav'') False" False 0 "envOk 1"]
    playNext_playPrev_index [of "[fileA, fileB, fileC]" "playerAt (Some ''c.wav'') False" False 0 "envOk 1"]
    playNext_playPrev_index [of "[fileA, fileB, fileC]" "playerAt (Some ''a.wav'') False" False 0 "envOk 1"]
  by (simp add: playerAt_def initialApp_def fileA_def fileB_def fileC_def audioFile_def)

subsection \<open>Sorting: the two comparators\<close>

text \<open>
  Claim C6 at an input with a tie.  \<open>fileA\<close> and \<open>fileB\<close> have the same date.  The comparator of
  the flat list answers 0 for them; the comparator of the tree never answers 0: it tells the
  sort that \<open>fileA\<close> goes after \<open>fileB\<close> and that \<open>fileB\<close> goes after \<open>fileA\<close>.  Sorted by date,
  descending, the flat list keeps the input order and the rows under the expanded folder
  come out in the opposite order.
\<close>

theorem compareTree_tie:
  "compareFlat SortDate Desc Map.empty Map.empty fileA fileB = 0
   \<and> compareTree SortDate Desc Map.empty Map.empty fileA fileB = - 1
   \<and> compareTree SortDate Desc Map.empty Map.empty fileB fileA = - 1
   \<and> map id_of (sortedFiles ((initialApp 2000)\<lparr>allFiles := [fileA, fileB],
                                 sortKey := SortDate, sortOrder := Desc\<rparr>))
       = [''a.wav'', ''b.wav'']
   \<and> map (id_of \<circ> node)
       (flattenedList (\<lambda>p f. None)
          (explorerOf ((initialApp 2000)\<lparr>allFiles := [fileA, fileB],
                                        sortKey := SortDate, sortOrder := Desc\<rparr>)
                      [folderOf ''d'' [fileA, fileB]] {''root'', ''d''}))
       = [''d'', ''b.wav'', ''a.wav'']"
  by (simp add: compareFlat_def compareTree_def sortValue_def orZero_def lookupOrZero_def
        sortedFiles_def sortBy_def initialApp_def fileA_def fileB_def audioFile_def
        flattenedList_def explorerOf_def folderOf_def treeFileMatches_def searchActive_def
        trim_def matchSmartSearch_def orInfinity_def leBound_def)

subsection \<open>Filtering: the flat list and the tree\<close>

lemma set_insertBy: "set (insertBy cmp x ys) = insert x (set ys)"
  by (induction ys) auto

lemma set_fold_insertBy: "set (fold (insertBy cmp) xs acc) = set xs \<union> set acc"
  by (induction xs arbitrary: acc) (auto simp: set_insertBy)

lemma set_sortBy: "set (sortBy cmp xs) = set xs"
  by (simp add: sortBy_def set_fold_insertBy)

lemma fileRows_append: "fileRows (xs @ ys) = fileRows xs \<union> fileRows ys"
  by (auto simp: fileRows_def)

lemma fileRows_Nil: "fileRows [] = {}"
  by (simp add: fileRows_def)

lemma fileRows_sortBy: "fileRows (sortBy cmp xs) = fileRows xs"
  by (simp add: fileRows_def set_sortBy)

lemma fileRows_directory: "kind_of nd \<noteq> File \<Longrightarrow> fileRows [\<lparr>node = nd, depth = d, isExpanded = e\<rparr>] = {}"
  by (simp add: fileRows_def)

lemma fileRows_file: "kind_of nd = File \<Longrightarrow> fileRows [\<lparr>node = nd, depth = d, isExpanded = e\<rparr>] = {nd}"
  by (auto simp: fileRows_def)

lemma fold_processNode:
  assumes "\<And>c r. c \<in> set cs \<Longrightarrow> \<exists>new. g c r = r @ new \<and> fileRows new = V c"
  shows "\<exists>new. fold g cs result = result @ new \<and> fileRows new = (\<Union>c\<in>set cs. V c)"
  using assms
proof (induction cs arbitrary: result)
  case Nil
  then show ?case by (simp add: fileRows_Nil)
next
  case (Cons c cs)
  obtain n1 where n1: "g c result = result @ n1" "fileRows n1 = V c"
    using Cons.prems [of c result] by auto
  obtain n2 where n2: "fold g cs (result @ n1) = (result @ n1) @ n2"
    "fileRows n2 = (\<Union>c\<in>set cs. V c)"
    using Cons.IH [of "result @ n1"] Cons.prems by (metis list.set_intros(2))
  have "fold g (c # cs) result = result @ (n1 @ n2)"
    using n1 n2 by simp
  moreover have "fileRows (n1 @ n2) = (\<Union>c\<in>set (c # cs). V c)"
    using n1 n2 by (simp add: fileRows_append)
  ultimately show ?case by blast
qed

lemma processNode_rows:
  "\<exists>new. processNode R p nd d result = result @ new
     \<and> fileRows new = {f \<in> set (visibleFilesOf (expandedFolders p) nd).
                        treeFileMatches R (filterCriteriaProp p) (durationsProp p) (ratingsProp p) f}"
proof (induction R p nd d result rule: processNode.induct)
  case (1 R p i n k h ph cs sz lm ty du ra fl d result)
  let ?nd = "Item i n k h ph cs sz lm ty du ra fl"
  let ?tm = "treeFileMatches R (filterCriteriaProp p) (durationsProp p) (ratingsProp p)"
  let ?V = "\<lambda>c. {f \<in> set (visibleFilesOf (expandedFolders p) c). ?tm f}"
  let ?children = "case cs of None \<Rightarrow> [] | Some l \<Rightarrow> l"
  show ?case
  proof (cases "k = File")
    case True
    then show ?thesis
      by (cases "?tm ?nd") (auto simp: fileRows_file fileRows_Nil)
  next
    case False
    let ?dirrow = "\<lparr>node = ?nd, depth = d, isExpanded = Some (i \<in> expandedFolders p)\<rparr>"
    have dirrow: "fileRows [?dirrow] = {}" using False by (simp add: fileRows_directory)
    show ?thesis
    proof (cases "i \<in> expandedFolders p \<or> searchActive p")
      case proc: True
      have ih: "\<exists>new. processNode R p c (d + 1) r = r @ new \<and> fileRows new = ?V c"
        if "c \<in> set ?children" for c r
        using 1 [OF refl refl False refl refl refl proc that] .
      have "\<exists>new. fold (\<lambda>c r. processNode R p c (d + 1) r) ?children result = result @ new
              \<and> fileRows new = (\<Union>c\<in>set ?children. ?V c)"
        by (rule fold_processNode) (rule ih)
      then obtain new where new:
        "fold (\<lambda>c r. processNode R p c (d + 1) r) ?children result = result @ new"
        "fileRows new = (\<Union>c\<in>set ?children. ?V c)"
        by blast
      have pn: "processNode R p ?nd d result =
        (if length (result @ new) > length result
            \<or> (matchSmartSearch R n (case filterCriteriaProp p of None \<Rightarrow> [] | Some c \<Rightarrow> searchText c)
               \<and> i \<noteq> ''root'')
         then (if i \<in> expandedFolders p
               then result @ [?dirrow] @ sortBy (\<lambda>a b. compareTree (sortKeyProp p) (sortOrderProp p)
                                                (durationsProp p) (ratingsProp p) (node a) (node b)) new
               else result @ [?dirrow])
         else result @ new)"
        using False proc new(1) by (simp add: Let_def)
      show ?thesis
      proof (cases "i \<in> expandedFolders p")
        case True
        have V: "?V ?nd = fileRows new" using new(2) False True by auto
        show ?thesis
        proof (cases "new = []")
          case True
          then have "fileRows ([?dirrow] @ new) = ?V ?nd \<and> fileRows new = ?V ?nd"
            using V dirrow by (simp add: fileRows_append fileRows_Nil)
          then show ?thesis using pn True \<open>i \<in> expandedFolders p\<close>
            by (auto simp: sortBy_def fileRows_Nil)
        next
          case False
          have "fileRows ([?dirrow] @ sortBy (\<lambda>a b. compareTree (sortKeyProp p) (sortOrderProp p)
                                                (durationsProp p) (ratingsProp p) (node a) (node b)) new) = ?V ?nd"
            using V dirrow
              fileRows_append [of "[?dirrow]" "sortBy (\<lambda>a b. compareTree (sortKeyProp p) (sortOrderProp p)
                                                (durationsProp p) (ratingsProp p) (node a) (node b)) new"]
            by (simp add: fileRows_sortBy)
          then show ?thesis using pn False \<open>i \<in> expandedFolders p\<close> by auto
        qed
      next
        case nexp: False
        have V: "?V ?nd = {}" using False nexp by simp
        show ?thesis
        proof (cases "new = []")
          case True
          then show ?thesis using pn nexp V dirrow by (auto simp: fileRows_Nil)
        next
          case False
          then show ?thesis using pn nexp V dirrow by auto
        qed
      qed
    next
      case noproc: False
      have V: "?V ?nd = {}" using False noproc by simp
      have pn: "processNode R p ?nd d result =
        (if matchSmartSearch R n (case filterCriteriaProp p of None \<Rightarrow> [] | Some c \<Rightarrow> searchText c)
               \<and> i \<noteq> ''root''
         then result @ [?dirrow] else result)"
        using False noproc by (simp add: Let_def)
      show ?thesis using pn V dirrow by (auto simp: fileRows_Nil)
    qed
  qed
qed

lemma flattenedList_fileRows:
  "fileRows (flattenedList R p)
     = {f \<in> (\<Union>it\<in>set (items p). set (visibleFilesOf (expandedFolders p) it)).
          treeFileMatches R (filterCriteriaProp p) (durationsProp p) (ratingsProp p) f}"
proof -
  let ?V = "\<lambda>c. {f \<in> set (visibleFilesOf (expandedFolders p) c).
                   treeFileMatches R (filterCriteriaProp p) (durationsProp p) (ratingsProp p) f}"
  have "\<exists>new. fold (\<lambda>item r. processNode R p item 0 r) (items p) [] = [] @ new
          \<and> fileRows new = (\<Union>c\<in>set (items p). ?V c)"
    by (rule fold_processNode) (rule processNode_rows)
  then show ?thesis by (auto simp: flattenedList_def)
qed

lemma treeFileMatches_flat:
  "maxSize c \<noteq> 0 \<Longrightarrow> maxDuration c \<noteq> 0 \<Longrightarrow> maxDate c \<noteq> 0 \<Longrightarrow>
   treeFileMatches R (Some c) ds rs f = flatFileMatches R c ds rs f"
  by (simp add: treeFileMatches_def flatFileMatches_def orInfinity_def leBound_def orZero_def)

lemma set_filteredFiles:
  "set (filteredFiles R s)
     = {f \<in> set (allFiles s). flatFileMatches R (criteria s) (durations s) (ratings s) f}"
  by (simp add: filteredFiles_def sortedFiles_def set_sortBy)

text \<open>Where an upper bound is 0 the two predicates differ: the flat list takes the bound as it
  is, the tree reads \<^verbatim>\<open>maxDuration || Infinity\<close> and drops it.\<close>

lemma treeFileMatches_zero_bound:
  "\<not> flatFileMatches (\<lambda>p f. None) ((criteria (initialApp 2000))\<lparr>maxDuration := 0\<rparr>)
        [''a.wav'' \<mapsto> 5] Map.empty fileA
   \<and> treeFileMatches (\<lambda>p f. None) (Some ((criteria (initialApp 2000))\<lparr>maxDuration := 0\<rparr>))
        [''a.wav'' \<mapsto> 5] Map.empty fileA"
  by (simp add: flatFileMatches_def treeFileMatches_def initialApp_def fileA_def audioFile_def
        lookupOrZero_def orZero_def orInfinity_def leBound_def matchSmartSearch_def trim_def)

text \<open>
  Claim C4 as stated fails where a folder is collapsed: the file \<open>a.wav\<close> in the folder \<open>d\<close>
  passes the filter and is in the flat list, and the flattened tree has the row of \<open>d\<close> only.
\<close>

theorem collapsed_folder_counterexample:
  "map id_of (filteredFiles (\<lambda>p f. None) ((initialApp 2000)\<lparr>allFiles := [fileA]\<rparr>)) = [''a.wav'']
   \<and> map (id_of \<circ> node)
        (flattenedList (\<lambda>p f. None)
           (explorerOf ((initialApp 2000)\<lparr>allFiles := [fileA]\<rparr>) [folderOf ''d'' [fileA]] {''root''}))
       = [''d'']"
  by (simp add: filteredFiles_def sortedFiles_def sortBy_def flatFileMatches_def initialApp_def
        fileA_def audioFile_def lookupOrZero_def orZero_def matchSmartSearch_def trim_def
        flattenedList_def explorerOf_def folderOf_def searchActive_def)

text \<open>
  Claim C4, amended.  For a filter snapshot whose three upper bounds are not 0, the flat
  filter and the tree flattener evaluate the same predicate on every entry; the file rows of
  the flattened tree are the files accepted by it among those reachable from the displayed
  entries through expanded folders, and the flat list holds the files accepted by it among
  all files.
\<close>

theorem flat_and_tree_filter:
  assumes "maxSize (criteria s) \<noteq> 0" and "maxDuration (criteria s) \<noteq> 0"
    and "maxDate (criteria s) \<noteq> 0"
  shows "treeFileMatches R (Some (criteria s)) (durations s) (ratings s) f
           = flatFileMatches R (criteria s) (durations s) (ratings s) f
       \<and> fileRows (flattenedList R (explorerOf s its expanded))
           = {f \<in> (\<Union>it\<in>set its. set (visibleFilesOf expanded it)).
                flatFileMatches R (criteria s) (durations s) (ratings s) f}
       \<and> set (filteredFiles R s)
           = {f \<in> set (allFiles s). flatFileMatches R (criteria s) (durations s) (ratings s) f}"
proof -
  have "fileRows (flattenedList R (explorerOf s its expanded))
          = {f \<in> (\<Union>it\<in>set its. set (visibleFilesOf expanded it)).
               treeFileMatches R (Some (criteria s)) (durations s) (ratings s) f}"
    using flattenedList_fileRows [of R "explorerOf s its expanded"]
    by (simp add: explorerOf_def)
  then show ?thesis
    using assms by (simp add: treeFileMatches_flat set_filteredFiles)
qed

text \<open>With every folder on the way expanded, the tree shows the files of the flat list.\<close>

theorem flat_and_tree_filter_witness:
  "maxSize (criteria ((initialApp 2000)\<lparr>allFiles := [fileA, fileB]\<rparr>)) \<noteq> 0
   \<and> maxDuration (criteria ((initialApp 2000)\<lparr>allFiles := [fileA, fileB]\<rparr>)) \<noteq> 0
   \<and> maxDate (criteria ((initialApp 2000)\<lparr>allFiles := [fileA, fileB]\<rparr>)) \<noteq> 0
   \<and> fileRows (flattenedList (\<lambda>p f. None)
         (explorerOf ((initialApp 2000)\<lparr>allFiles := [fileA, fileB]\<rparr>)
                     [folderOf ''d'' [fileA], fileB] {''root'', ''d''}))
       = set (filteredFiles (\<lambda>p f. None) ((initialApp 2000)\<lparr>allFiles := [fileA, fileB]\<rparr>))"
proof -
  let ?s = "(initialApp 2000)\<lparr>allFiles := [fileA, fileB]\<rparr>"
  have h: "maxSize (criteria ?s) \<noteq> 0" "maxDuration (criteria ?s) \<noteq> 0" "maxDate (criteria ?s) \<noteq> 0"
    by (simp_all add: initialApp_def)
  have v: "(\<Union>it\<in>set [folderOf ''d'' [fileA], fileB]. set (visibleFilesOf {''root'', ''d''} it))
             = set (allFiles ?s)"
    by (auto simp: folderOf_def fileA_def fileB_def audioFile_def)
  note t = flat_and_tree_filter [OF h, of "\<lambda>p f. None" fileA "[folderOf ''d'' [fileA], fileB]" "{''root'', ''d''}"]
  have a: "fileRows (flattenedList (\<lambda>p f. None)
              (explorerOf ?s [folderOf ''d'' [fileA], fileB] {''root'', ''d''}))
           = {f \<in> (\<Union>it\<in>set [folderOf ''d'' [fileA], fileB]. set (visibleFilesOf {''root'', ''d''} it)).
                flatFileMatches (\<lambda>p f. None) (criteria ?s) (durations ?s) (ratings ?s) f}"
    using t by blast
  have b: "set (filteredFiles (\<lambda>p f. None) ?s)
           = {f \<in> set (allFiles ?s).
                flatFileMatches (\<lambda>p f. None) (criteria ?s) (durations ?s) (ratings ?s) f}"
    using t by blast
  have "fileRows (flattenedList (\<lambda>p f. None)
              (explorerOf ?s [folderOf ''d'' [fileA], fileB] {''root'', ''d''}))
         = set (filteredFiles (\<lambda>p f. None) ?s)"
    unfolding a b v by (rule refl)
  then show ?thesis using h by blast
qed

subsection \<open>Playback: overlapping loads\<close>

lemmas resume_defs =
  resume_def openFile_def afterGetFile_def withFile_def releaseLastUrl_def afterTimeout_def
  afterPlay_def afterArrayBuffer_def afterDecode_def checkThenBuffer_def catchBlock_def

lemma snd_catchBlock_stale:
  "requestId t \<noteq> playRequestCount s \<Longrightarrow> snd (catchBlock t s) = s"
  by (simp add: catchBlock_def)

lemma snd_checkThenBuffer: "snd (checkThenBuffer t s) = s"
  by (simp add: checkThenBuffer_def)

lemma releaseLastUrl_fields:
  "waveform (releaseLastUrl s) = waveform s"
  "playRequestCount (releaseLastUrl s) = playRequestCount s"
  by (simp_all add: releaseLastUrl_def split: option.splits)

lemma waveform_withFile: "waveform (snd (withFile f t s)) = waveform s"
  by (simp add: withFile_def Let_def snd_checkThenBuffer releaseLastUrl_fields)

lemma waveform_openFile_stale:
  "requestId t \<noteq> playRequestCount s \<Longrightarrow> waveform (snd (openFile t s)) = waveform s"
  by (simp add: openFile_def waveform_withFile snd_catchBlock_stale releaseLastUrl_fields
           split: handle.splits option.splits)

lemma waveform_afterGetFile_stale:
  "requestId t \<noteq> playRequestCount s \<Longrightarrow> waveform (snd (afterGetFile t s)) = waveform s"
  by (simp add: afterGetFile_def waveform_withFile snd_catchBlock_stale split: promise.splits)

lemma waveform_afterTimeout: "waveform (snd (afterTimeout t s)) = waveform s"
  by (simp add: afterTimeout_def Let_def snd_checkThenBuffer)

lemma waveform_afterPlay_stale:
  "requestId t \<noteq> playRequestCount s \<Longrightarrow> waveform (snd (afterPlay t s)) = waveform s"
  by (simp add: afterPlay_def snd_checkThenBuffer snd_catchBlock_stale split: playOutcome.splits)

lemma waveform_afterArrayBuffer_stale:
  "requestId t \<noteq> playRequestCount s \<Longrightarrow> waveform (snd (afterArrayBuffer t s)) = waveform s"
  by (simp add: afterArrayBuffer_def snd_catchBlock_stale)

lemma waveform_afterDecode_stale:
  "requestId t \<noteq> playRequestCount s \<Longrightarrow> waveform (snd (afterDecode t s)) = waveform s"
  by (simp add: afterDecode_def snd_catchBlock_stale split: promise.splits)

text \<open>A superseded load never writes the waveform: both writes are behind a check of the
  request number.\<close>

lemma stale_resume_waveform:
  "requestId t \<noteq> playRequestCount s \<Longrightarrow> waveform (snd (resume t s)) = waveform s"
  by (cases "stage t")
     (simp_all add: resume_def waveform_openFile_stale waveform_afterGetFile_stale
        waveform_afterTimeout waveform_afterPlay_stale waveform_afterArrayBuffer_stale
        waveform_afterDecode_stale)

text \<open>After \<^verbatim>\<open>getFile()\<close> the active entry is written whatever the request counter says.\<close>

lemma resume_getFile_activeFileId:
  "stage t = AwaitGetFile \<Longrightarrow> getFileResult (env t) = Resolves f \<Longrightarrow>
   activeFileId (snd (resume t s)) = Some (id_of (taskItem t))"
  by (simp add: resume_def afterGetFile_def withFile_def Let_def checkThenBuffer_def)

text \<open>The scenario of the specification: the superseded load is in its decode.\<close>

lemma slowDecodeRace_result:
  "activeFileId (state (run slowDecodeRace initialPlayer)) = Some ''b.wav''
   \<and> map_option buffer (waveform (state (run slowDecodeRace initialPlayer))) = Some (bufferOf 2)
   \<and> map stage (tasks (run slowDecodeRace initialPlayer)) = [Finished, Finished]"
  by (simp add: slowDecodeRace_def run_def initialPlayer_def initialApp_def playFile_def
        resumeRequest_def resume_defs envOk_def fileA_def fileB_def audioFile_def)

text \<open>
  Claim C1 at an input where the file of the superseded load opens late.  After
  \<^verbatim>\<open>getFile()\<close> there is no check of the request number: the superseded load of \<open>a.wav\<close>
  (request 1, the counter is 2) releases the URL of \<open>b.wav\<close>, makes \<open>a.wav\<close> the active entry
  and the source of the audio element, and starts it.  When both loads are finished the
  active entry is \<open>a.wav\<close> and the waveform is that of \<open>b.wav\<close>.
\<close>

theorem slowOpenRace_result:
  "map stage (tasks (run slowOpenRace initialPlayer)) = [Finished, Finished]
   \<and> playRequestCount (state (run slowOpenRace initialPlayer)) = 2
   \<and> activeFileId (state (run slowOpenRace initialPlayer)) = Some ''a.wav''
   \<and> audioSrc (state (run slowOpenRace initialPlayer)) = Some 1
   \<and> revokedUrls (state (run slowOpenRace initialPlayer)) = [2]
   \<and> map_option buffer (waveform (state (run slowOpenRace initialPlayer))) = Some (bufferOf 2)"
  by (simp add: slowOpenRace_def run_def initialPlayer_def initialApp_def playFile_def
        resumeRequest_def resume_defs envOk_def fileA_def fileB_def audioFile_def)

subsection \<open>The duration bound\<close>

lemma durationMax_flush: "durationMax s \<le> durationMax (flush m b s)"
  by (simp add: flush_def Let_def)

lemma durationMax_flush_last:
  "m \<le> durationMax s \<Longrightarrow> lastMaxDuration b \<le> durationMax (flush m b s)"
  by (simp add: flush_def Let_def)

lemma lastMaxDuration_probeFile: "lastMaxDuration b \<le> lastMaxDuration (probeFile pr f b)"
proof -
  have "lastMaxDuration b \<le> of_int \<lceil>d\<rceil>" if "lastMaxDuration b < d" for d
    using that le_of_int_ceiling [of d] by linarith
  then show ?thesis by (auto simp: probeFile_def split: probe.splits)
qed

lemma measured_le_probeFile:
  "pr f = Measured d \<Longrightarrow> d > 0 \<Longrightarrow> d \<le> lastMaxDuration (probeFile pr f b)"
proof -
  assume "pr f = Measured d" "d > 0"
  moreover have "d \<le> of_int \<lceil>d\<rceil>" by simp
  ultimately show ?thesis by (simp add: probeFile_def)
qed

lemma enrichLoop_durationMax:
  "durationMax s \<le> durationMax (enrichLoop pr clock m k q b s)"
proof (induction q arbitrary: k b s)
  case Nil
  then show ?case by simp
next
  case (Cons f rest)
  let ?s1 = "s\<lparr>metadataQueue := rest\<rparr>"
  let ?b1 = "probeFile pr f b"
  let ?b2 = "\<lparr>batch = Map.empty, batchSize = 0, lastBatchTime = clock k,
              lastMaxDuration = lastMaxDuration ?b1\<rparr>"
  have a: "durationMax s \<le> durationMax (enrichLoop pr clock m (k + 1) rest ?b1 ?s1)"
    using Cons.IH [where k = "k + 1" and b = ?b1 and s = ?s1] by simp
  have "durationMax s \<le> durationMax (flush m ?b1 ?s1)"
    using durationMax_flush [of ?s1 m ?b1] by simp
  then have b: "durationMax s \<le> durationMax (enrichLoop pr clock m (k + 1) rest ?b2 (flush m ?b1 ?s1))"
    using Cons.IH [where k = "k + 1" and b = ?b2 and s = "flush m ?b1 ?s1"] by simp
  show ?case using a b by (simp add: Let_def)
qed

lemma enrichLoop_covers:
  assumes "q \<noteq> []" and "m \<le> durationMax s"
  shows "lastMaxDuration b \<le> durationMax (enrichLoop pr clock m k q b s)
       \<and> (\<forall>f\<in>set q. \<forall>d. pr f = Measured d \<and> d > 0 \<longrightarrow>
             d \<le> durationMax (enrichLoop pr clock m k q b s))"
  using assms
proof (induction q arbitrary: k b s)
  case Nil
  then show ?case by simp
next
  case (Cons f rest)
  let ?s1 = "s\<lparr>metadataQueue := rest\<rparr>"
  let ?b1 = "probeFile pr f b"
  let ?b2 = "\<lparr>batch = Map.empty, batchSize = 0, lastBatchTime = clock k,
              lastMaxDuration = lastMaxDuration ?b1\<rparr>"
  let ?r = "enrichLoop pr clock m k (f # rest) b s"
  have m1: "m \<le> durationMax ?s1" using Cons.prems(2) by simp
  let ?C = "batchSize ?b1 \<ge> 20 \<or> (clock k - lastBatchTime ?b1 > 500 \<and> batchSize ?b1 > 0)
            \<or> length rest = 0"
  have r: "?r = (if ?C then enrichLoop pr clock m (k + 1) rest ?b2 (flush m ?b1 ?s1)
                 else enrichLoop pr clock m (k + 1) rest ?b1 ?s1)"
    by (simp only: enrichLoop.simps Let_def)
  have b1: "lastMaxDuration ?b1 \<le> durationMax ?r
            \<and> (\<forall>g\<in>set rest. \<forall>d. pr g = Measured d \<and> d > 0 \<longrightarrow> d \<le> durationMax ?r)"
  proof (cases ?C)
    case True
    then have r1: "?r = enrichLoop pr clock m (k + 1) rest ?b2 (flush m ?b1 ?s1)"
      using r by (simp only: if_True)
    show ?thesis
    proof (cases "rest = []")
      case Nil: True
      then show ?thesis
        using r1 durationMax_flush_last [OF m1, of ?b1] by simp
    next
      case False
      have "m \<le> durationMax (flush m ?b1 ?s1)"
        using m1 durationMax_flush [of ?s1 m ?b1] by simp
      then show ?thesis
        using Cons.IH [OF False, where s = "flush m ?b1 ?s1" and b = ?b2 and k = "k + 1"] r1
        by simp
    qed
  next
    case False
    then have r2: "?r = enrichLoop pr clock m (k + 1) rest ?b1 ?s1"
      using r by (simp only: if_False)
    have ne: "rest \<noteq> []" using False by simp
    show ?thesis
      using Cons.IH [OF ne m1, where b = ?b1 and k = "k + 1"] r2 by simp
  qed
  have "lastMaxDuration b \<le> durationMax ?r"
    using b1 lastMaxDuration_probeFile [of b pr f] by linarith
  moreover have "d \<le> durationMax ?r" if "pr f = Measured d" "d > 0" for d
    using b1 measured_le_probeFile [of pr f d b] that by linarith
  ultimately show ?case using b1 by auto
qed

lemma enrichMetadata_durationMax:
  "durationMax s \<le> durationMax (enrichMetadata pr clock s)"
  using enrichLoop_durationMax [of "s\<lparr>isEnriching := True\<rparr>"]
  by (simp add: enrichMetadata_def)

lemma enrichMetadata_covers:
  assumes "isStarted s" and "\<not> isEnriching s" and "f \<in> set (metadataQueue s)"
    and "pr f = Measured d" and "d > 0"
  shows "d \<le> durationMax (enrichMetadata pr clock s)"
proof -
  have q: "metadataQueue s \<noteq> []" using assms(3) by auto
  have "enrichMetadata pr clock s
          = enrichLoop pr clock (durationMax s) 1 (metadataQueue s)
              \<lparr>batch = Map.empty, batchSize = 0, lastBatchTime = clock 0,
               lastMaxDuration = durationMax s\<rparr> (s\<lparr>isEnriching := True\<rparr>)"
    using assms(1,2) q by (simp add: enrichMetadata_def)
  then show ?thesis
    using enrichLoop_covers [OF q, of "durationMax s" "s\<lparr>isEnriching := True\<rparr>" _ pr clock 1]
      assms(3,4,5) by auto
qed

lemma refreshFiles_durationMax:
  "durationMax (stateOf (refreshFiles e s))
     = (if rootHandle s \<noteq> None \<and> fst (collect (scanned e)) \<noteq> [] then 60 else durationMax s)"
  by (cases "collect (scanned e)")
     (auto simp: refreshFiles_def Let_def split: option.splits promise.splits)

text \<open>
  Claim C3 as stated fails at a rescan.  Enrichment measures 120 seconds for \<open>a.wav\<close> and
  widens the bound to 120; a rescan that then finds the single file \<open>b.wav\<close> sets the bound
  to 60.
\<close>

theorem rescan_shrinks_counterexample:
  "durationMax (enrichMetadata (\<lambda>f. Measured 120) (\<lambda>k. 0) (startedApp [fileA])) = 120
   \<and> durationMax (stateOf (refreshFiles (rescanEnv [fileB] [''a.wav'' \<mapsto> 120])
                        (enrichMetadata (\<lambda>f. Measured 120) (\<lambda>k. 0) (startedApp [fileA])))) = 60"
proof -
  have e: "durationMax (enrichMetadata (\<lambda>f. Measured 120) (\<lambda>k. 0) (startedApp [fileA])) = 120"
    by (simp add: enrichMetadata_def startedApp_def initialApp_def probeFile_def flush_def Let_def)
  have r: "rootHandle (enrichMetadata (\<lambda>f. Measured 120) (\<lambda>k. 0) (startedApp [fileA])) \<noteq> None"
    by (simp add: enrichMetadata_def startedApp_def initialApp_def probeFile_def flush_def Let_def)
  have c: "fst (collect (scanned (rescanEnv [fileB] [''a.wav'' \<mapsto> 120]))) \<noteq> []"
    by (simp add: rescanEnv_def collect_def fileB_def audioFile_def)
  show ?thesis using e r c by (simp add: refreshFiles_durationMax)
qed

lemma durationMax_flush_exact:
  "durationMax (flush m b s)
     = (if lastMaxDuration b > m then max (durationMax s) (lastMaxDuration b) else durationMax s)"
  by (simp add: flush_def Let_def)

lemma lastMaxDuration_probeFile_exact:
  "lastMaxDuration (probeFile pr f b)
     = (case pr f of
          GetFileThrows \<Rightarrow> lastMaxDuration b
        | Measured d \<Rightarrow> if d > 0 \<and> d > lastMaxDuration b then of_int \<lceil>d\<rceil> else lastMaxDuration b)"
  by (simp add: probeFile_def split: probe.splits)

text \<open>
  Claim C3, amended.  In an enrichment pass the running maximum \<^verbatim>\<open>lastMaxDuration\<close> is raised
  to the found duration rounded up whenever a probe finds a positive duration above it, and a
  flush sets \<^verbatim>\<open>bounds.duration.max\<close> to the larger of its current value and the running
  maximum when the running maximum is above the bound the effect closed over, and leaves it
  otherwise; so no flush lowers the bound, whatever the state it meets.  A pass that runs
  from its start to its end without another operation in between never lowers the bound and
  ends with a bound that is at least every duration it has found.  A rescan that finds at
  least one file sets the bound to 60; a rescan without a root directory or without files
  leaves it as it is.
\<close>

theorem duration_bound_steps:
  "lastMaxDuration (probeFile pr f b)
     = (case pr f of
          GetFileThrows \<Rightarrow> lastMaxDuration b
        | Measured x \<Rightarrow> if x > 0 \<and> x > lastMaxDuration b then of_int \<lceil>x\<rceil> else lastMaxDuration b)
   \<and> durationMax (flush m b s)
        = (if lastMaxDuration b > m then max (durationMax s) (lastMaxDuration b) else durationMax s)
   \<and> durationMax s \<le> durationMax (flush m b s)
   \<and> durationMax s \<le> durationMax (enrichMetadata pr clock s)
   \<and> (isStarted s \<and> \<not> isEnriching s \<and> f \<in> set (metadataQueue s) \<and> pr f = Measured d \<and> d > 0
        \<longrightarrow> d \<le> durationMax (enrichMetadata pr clock s))
   \<and> durationMax (stateOf (refreshFiles e s))
        = (if rootHandle s \<noteq> None \<and> fst (collect (scanned e)) \<noteq> [] then 60 else durationMax s)"
  using enrichMetadata_durationMax [of s pr clock] enrichMetadata_covers [of s f pr d clock]
    refreshFiles_durationMax [of e s] durationMax_flush_exact [of m b s]
    durationMax_flush [of s m b] lastMaxDuration_probeFile_exact [of pr f b]
  by blast

text \<open>A pass over one file of 120.5 seconds from the bound 60: the running maximum becomes
  121, the flush sets the bound to 121, and a rescan that finds no file keeps the bound.\<close>

theorem duration_bound_steps_witness:
  "isStarted (startedApp [fileA]) \<and> \<not> isEnriching (startedApp [fileA])
   \<and> fileA \<in> set (metadataQueue (startedApp [fileA])) \<and> (0::real) < 241 / 2
   \<and> lastMaxDuration (probeFile (\<lambda>f. Measured (241 / 2)) fileA
         \<lparr>batch = Map.empty, batchSize = 0, lastBatchTime = 0, lastMaxDuration = 60\<rparr>) = 121
   \<and> durationMax (flush 60 \<lparr>batch = Map.empty, batchSize = 1, lastBatchTime = 0, lastMaxDuration = 121\<rparr>
         (startedApp [fileA])) = 121
   \<and> durationMax (startedApp [fileA])
        \<le> durationMax (enrichMetadata (\<lambda>f. Measured (241 / 2)) (\<lambda>k. 0) (startedApp [fileA]))
   \<and> 241 / 2 \<le> durationMax (enrichMetadata (\<lambda>f. Measured (241 / 2)) (\<lambda>k. 0) (startedApp [fileA]))
   \<and> durationMax (stateOf (refreshFiles (rescanEnv [] Map.empty) (startedApp [fileA])))
        = durationMax (startedApp [fileA])"
proof -
  have c: "\<lceil>241 / 2 :: real\<rceil> = 121" by (simp add: ceiling_eq_iff)
  note t1 = duration_bound_steps [where s = "startedApp [fileA]" and pr = "\<lambda>f. Measured (241 / 2)"
      and clock = "\<lambda>k. 0" and f = fileA and d = "241 / 2" and e = "rescanEnv [] Map.empty" and m = 60
      and b = "\<lparr>batch = Map.empty, batchSize = 0, lastBatchTime = 0, lastMaxDuration = 60\<rparr>"]
  note t2 = duration_bound_steps [where s = "startedApp [fileA]" and pr = "\<lambda>f. Measured (241 / 2)"
      and clock = "\<lambda>k. 0" and f = fileA and d = "241 / 2" and e = "rescanEnv [] Map.empty" and m = 60
      and b = "\<lparr>batch = Map.empty, batchSize = 1, lastBatchTime = 0, lastMaxDuration = 121\<rparr>"]
  show ?thesis
    using t1 t2 c
    by (simp add: startedApp_def initialApp_def rescanEnv_def collect_def)
qed

subsection \<open>An enrichment pass\<close>

lemma batch_probeFile: "batch (probeFile pr f b) ++ measuredMap pr fs = batch b ++ measuredMap pr (f # fs)"
  by (auto simp: probeFile_def map_add_upd_left split: probe.splits)

lemma durations_flush: "durations (flush m b s) = durations s ++ batch b"
  by (simp add: flush_def Let_def)

lemma enrichLoop_durations:
  "q \<noteq> [] \<Longrightarrow>
   durations (enrichLoop pr clock m k q b s) = (durations s ++ batch b) ++ measuredMap pr q"
proof (induction q arbitrary: k b s)
  case Nil
  then show ?case by simp
next
  case (Cons f rest)
  let ?s1 = "s\<lparr>metadataQueue := rest\<rparr>"
  let ?b1 = "probeFile pr f b"
  let ?b2 = "\<lparr>batch = Map.empty, batchSize = 0, lastBatchTime = clock k,
              lastMaxDuration = lastMaxDuration ?b1\<rparr>"
  let ?r = "enrichLoop pr clock m k (f # rest) b s"
  let ?C = "batchSize ?b1 \<ge> 20 \<or> (clock k - lastBatchTime ?b1 > 500 \<and> batchSize ?b1 > 0)
            \<or> length rest = 0"
  have r: "?r = (if ?C then enrichLoop pr clock m (k + 1) rest ?b2 (flush m ?b1 ?s1)
                 else enrichLoop pr clock m (k + 1) rest ?b1 ?s1)"
    by (simp only: enrichLoop.simps Let_def)
  have goal: "(durations s ++ batch ?b1) ++ measuredMap pr rest
                = (durations s ++ batch b) ++ measuredMap pr (f # rest)"
    using batch_probeFile [of pr f b rest] by (metis map_add_assoc)
  show ?case
  proof (cases ?C)
    case True
    then have r1: "?r = enrichLoop pr clock m (k + 1) rest ?b2 (flush m ?b1 ?s1)"
      using r by (simp only: if_True)
    show ?thesis
    proof (cases "rest = []")
      case Nil: True
      have "durations ?r = durations s ++ batch ?b1"
        using r1 Nil by (simp add: durations_flush)
      moreover have "measuredMap pr rest = Map.empty" using Nil by simp
      ultimately show ?thesis using goal by simp
    next
      case False
      have "durations ?r = (durations (flush m ?b1 ?s1) ++ batch ?b2) ++ measuredMap pr rest"
        using Cons.IH [OF False, where s = "flush m ?b1 ?s1" and b = ?b2 and k = "k + 1"] r1
        by simp
      then show ?thesis using goal by (simp add: durations_flush)
    qed
  next
    case False
    then have r2: "?r = enrichLoop pr clock m (k + 1) rest ?b1 ?s1"
      using r by (simp only: if_False)
    have ne: "rest \<noteq> []" using False by simp
    have "durations ?r = (durations ?s1 ++ batch ?b1) ++ measuredMap pr rest"
      using Cons.IH [OF ne, where s = ?s1 and b = ?b1 and k = "k + 1"] r2 by simp
    then show ?thesis using goal by simp
  qed
qed

lemma dom_measuredMap:
  "dom (measuredMap pr q) = {id_of f | f. f \<in> set q \<and> probeOk (pr f)}"
proof (induction q)
  case Nil
  then show ?case by simp
next
  case (Cons f fs)
  show ?case
  proof (cases "pr f")
    case GetFileThrows
    then show ?thesis using Cons by auto
  next
    case (Measured d)
    then show ?thesis using Cons by (cases "d > 0") auto
  qed
qed

lemma measuredMap_value:
  "distinct (map id_of q) \<Longrightarrow> f \<in> set q \<Longrightarrow> pr f = Measured d \<Longrightarrow> d > 0 \<Longrightarrow>
   measuredMap pr q (id_of f) = Some d"
proof (induction q)
  case Nil
  then show ?case by simp
next
  case (Cons g gs)
  show ?case
  proof (cases "f = g")
    case True
    have "id_of g \<notin> dom (measuredMap pr gs)"
      using Cons.prems(1) by (auto simp: dom_measuredMap)
    then have "measuredMap pr gs (id_of g) = None" by auto
    then show ?thesis using True Cons.prems by (simp add: map_add_def)
  next
    case False
    then have "f \<in> set gs" using Cons.prems(2) by simp
    then have ih: "measuredMap pr gs (id_of f) = Some d"
      using Cons.IH Cons.prems by simp
    then show ?thesis by (auto simp: map_add_def split: probe.splits)
  qed
qed

lemma persisted_flush:
  "persistedDurations (flush m b s) = persistedDurations s @ [durations (flush m b s)]"
  by (simp add: flush_def Let_def)

lemma batchSize_probeFile:
  "batchSize (probeFile pr f b) = batchSize b + (if probeOk (pr f) then 1 else 0)"
  by (cases "pr f") (simp_all add: probeFile_def)

lemma probeFile_failed: "\<not> probeOk (pr f) \<Longrightarrow> probeFile pr f b = b"
  by (cases "pr f") (simp_all add: probeFile_def)

lemma enrichLoop_writes:
  "q \<noteq> [] \<Longrightarrow> batchSize b < 20 \<Longrightarrow>
   length (persistedDurations s) + 1 \<le> length (persistedDurations (enrichLoop pr clock m k q b s))
   \<and> (20 \<le> batchSize b + length (filter (\<lambda>f. probeOk (pr f)) (butlast q)) \<longrightarrow>
        length (persistedDurations s) + 2
          \<le> length (persistedDurations (enrichLoop pr clock m k q b s)))"
proof (induction q arbitrary: k b s)
  case Nil
  then show ?case by simp
next
  case (Cons f rest)
  let ?s1 = "s\<lparr>metadataQueue := rest\<rparr>"
  let ?b1 = "probeFile pr f b"
  let ?b2 = "\<lparr>batch = Map.empty, batchSize = 0, lastBatchTime = clock k,
              lastMaxDuration = lastMaxDuration ?b1\<rparr>"
  let ?r = "enrichLoop pr clock m k (f # rest) b s"
  let ?C = "batchSize ?b1 \<ge> 20 \<or> (clock k - lastBatchTime ?b1 > 500 \<and> batchSize ?b1 > 0)
            \<or> length rest = 0"
  have r: "?r = (if ?C then enrichLoop pr clock m (k + 1) rest ?b2 (flush m ?b1 ?s1)
                 else enrichLoop pr clock m (k + 1) rest ?b1 ?s1)"
    by (simp only: enrichLoop.simps Let_def)
  have fl: "length (persistedDurations (flush m ?b1 ?s1)) = length (persistedDurations s) + 1"
    by (simp add: persisted_flush)
  show ?case
  proof (cases ?C)
    case True
    then have r1: "?r = enrichLoop pr clock m (k + 1) rest ?b2 (flush m ?b1 ?s1)"
      using r by (simp only: if_True)
    show ?thesis
    proof (cases "rest = []")
      case Nil: True
      then show ?thesis using r1 fl Cons.prems(2) by simp
    next
      case False
      have "length (persistedDurations (flush m ?b1 ?s1)) + 1 \<le> length (persistedDurations ?r)"
        using Cons.IH [OF False, where s = "flush m ?b1 ?s1" and b = ?b2 and k = "k + 1"] r1
        by simp
      then show ?thesis using fl by simp
    qed
  next
    case False
    then have r2: "?r = enrichLoop pr clock m (k + 1) rest ?b1 ?s1"
      using r by (simp only: if_False)
    have ne: "rest \<noteq> []" using False by simp
    have small: "batchSize ?b1 < 20" using False by simp
    have bl: "butlast (f # rest) = f # butlast rest" using ne by simp
    have cnt: "batchSize b + length (filter (\<lambda>f. probeOk (pr f)) (butlast (f # rest)))
                 = batchSize ?b1 + length (filter (\<lambda>f. probeOk (pr f)) (butlast rest))"
      unfolding bl by (simp add: batchSize_probeFile)
    have "length (persistedDurations ?s1) + 1 \<le> length (persistedDurations ?r)
          \<and> (20 \<le> batchSize ?b1 + length (filter (\<lambda>f. probeOk (pr f)) (butlast rest)) \<longrightarrow>
               length (persistedDurations ?s1) + 2 \<le> length (persistedDurations ?r))"
      using Cons.IH [OF ne small, where s = ?s1 and k = "k + 1"] r2 by simp
    then show ?thesis unfolding cnt by simp
  qed
qed

lemma enrichLoop_writes_failed:
  "q \<noteq> [] \<Longrightarrow> batchSize b = 0 \<Longrightarrow> \<forall>f\<in>set q. \<not> probeOk (pr f) \<Longrightarrow>
   length (persistedDurations (enrichLoop pr clock m k q b s)) = length (persistedDurations s) + 1"
proof (induction q arbitrary: k s)
  case Nil
  then show ?case by simp
next
  case (Cons f rest)
  let ?s1 = "s\<lparr>metadataQueue := rest\<rparr>"
  have b1: "probeFile pr f b = b" using Cons.prems(3) by (simp add: probeFile_failed)
  show ?case
  proof (cases "rest = []")
    case True
    then show ?thesis using b1 by (simp add: Let_def persisted_flush)
  next
    case False
    have "enrichLoop pr clock m k (f # rest) b s = enrichLoop pr clock m (k + 1) rest b ?s1"
      using False b1 Cons.prems(2) by (simp add: Let_def)
    then show ?thesis
      using Cons.IH [OF False Cons.prems(2), where s = ?s1 and k = "k + 1"] Cons.prems(3) by simp
  qed
qed

lemma metadataQueue_flush: "metadataQueue (flush m b s) = metadataQueue s"
  by (simp add: flush_def Let_def)

lemma enrichLoop_done:
  "q \<noteq> [] \<Longrightarrow>
   metadataQueue (enrichLoop pr clock m k q b s) = [] \<and> \<not> isEnriching (enrichLoop pr clock m k q b s)
   \<and> persistedDurations (enrichLoop pr clock m k q b s) \<noteq> []
   \<and> last (persistedDurations (enrichLoop pr clock m k q b s))
       = durations (enrichLoop pr clock m k q b s)"
proof (induction q arbitrary: k b s)
  case Nil
  then show ?case by simp
next
  case (Cons f rest)
  let ?s1 = "s\<lparr>metadataQueue := rest\<rparr>"
  let ?b1 = "probeFile pr f b"
  let ?b2 = "\<lparr>batch = Map.empty, batchSize = 0, lastBatchTime = clock k,
              lastMaxDuration = lastMaxDuration ?b1\<rparr>"
  let ?r = "enrichLoop pr clock m k (f # rest) b s"
  let ?C = "batchSize ?b1 \<ge> 20 \<or> (clock k - lastBatchTime ?b1 > 500 \<and> batchSize ?b1 > 0)
            \<or> length rest = 0"
  have r: "?r = (if ?C then enrichLoop pr clock m (k + 1) rest ?b2 (flush m ?b1 ?s1)
                 else enrichLoop pr clock m (k + 1) rest ?b1 ?s1)"
    by (simp only: enrichLoop.simps Let_def)
  show ?case
  proof (cases "rest = []")
    case True
    then have "?r = (flush m ?b1 ?s1)\<lparr>isEnriching := False\<rparr>" using r by simp
    then show ?thesis using True by (simp add: persisted_flush metadataQueue_flush)
  next
    case False
    show ?thesis
      using Cons.IH [OF False, where s = "flush m ?b1 ?s1" and b = ?b2 and k = "k + 1"]
        Cons.IH [OF False, where s = ?s1 and b = ?b1 and k = "k + 1"] r
      by (cases ?C) (simp_all only: if_True if_False, simp_all)
  qed
qed

lemma enrichMetadata_unfold:
  "isStarted s \<Longrightarrow> \<not> isEnriching s \<Longrightarrow> metadataQueue s \<noteq> [] \<Longrightarrow>
   enrichMetadata pr clock s
     = enrichLoop pr clock (durationMax s) 1 (metadataQueue s)
         \<lparr>batch = Map.empty, batchSize = 0, lastBatchTime = clock 0,
          lastMaxDuration = durationMax s\<rparr> (s\<lparr>isEnriching := True\<rparr>)"
  by (simp add: enrichMetadata_def)

text \<open>
  Claim C5 as stated fails where probes fail: a pass over 25 files none of whose probes finds
  a duration writes the persisted cache once, at the final flush, and leaves the duration map
  empty.
\<close>

theorem failed_probes_counterexample:
  "length (metadataQueue (startedApp (library 25))) = 25
   \<and> length (persistedDurations
        (enrichMetadata (\<lambda>f. Measured 0) (\<lambda>k. 0) (startedApp (library 25)))) = 1
   \<and> dom (durations (enrichMetadata (\<lambda>f. Measured 0) (\<lambda>k. 0) (startedApp (library 25)))) = {}"
proof -
  let ?s = "startedApp (library 25)"
  have q: "metadataQueue ?s = library 25" by (simp add: startedApp_def)
  have len: "length (library 25) = 25" by (simp add: library_def)
  then have ne: "metadataQueue ?s \<noteq> []" using q by auto
  have st: "isStarted ?s" "\<not> isEnriching ?s" "persistedDurations ?s = []" "durations ?s = Map.empty"
    by (simp_all add: startedApp_def initialApp_def)
  note u = enrichMetadata_unfold [OF st(1) st(2) ne, of "\<lambda>f. Measured 0" "\<lambda>k. 0"]
  have "length (persistedDurations (enrichMetadata (\<lambda>f. Measured 0) (\<lambda>k. 0) ?s)) = 1"
    unfolding u using enrichLoop_writes_failed [OF ne, where pr = "\<lambda>f. Measured 0"
        and s = "?s\<lparr>isEnriching := True\<rparr>"
        and b = "\<lparr>batch = Map.empty, batchSize = 0, lastBatchTime = 0, lastMaxDuration = durationMax ?s\<rparr>"]
      st(3) by simp
  moreover have "dom (durations (enrichMetadata (\<lambda>f. Measured 0) (\<lambda>k. 0) ?s)) = {}"
    unfolding u using st(4) by (simp add: enrichLoop_durations [OF ne] dom_measuredMap)
  ultimately show ?thesis using q len by simp
qed

text \<open>
  Claim C5, amended.  A pass over a non-empty queue empties the queue; afterwards the duration
  map holds what it held before and, in addition, exactly the entries whose probe found a
  positive duration, each with that duration.  The persisted cache is written at least once,
  the last write being the final duration map, and at least twice when at least 20 probes
  before the last entry of the queue find a duration.
\<close>

theorem enrichment_pass:
  assumes "isStarted s" and "\<not> isEnriching s" and "metadataQueue s \<noteq> []"
  shows "metadataQueue (enrichMetadata pr clock s) = []
    \<and> \<not> isEnriching (enrichMetadata pr clock s)
    \<and> dom (durations (enrichMetadata pr clock s))
        = dom (durations s) \<union> {id_of f | f. f \<in> set (metadataQueue s) \<and> probeOk (pr f)}
    \<and> (distinct (map id_of (metadataQueue s)) \<and> f \<in> set (metadataQueue s)
         \<and> pr f = Measured d \<and> d > 0 \<longrightarrow>
        durations (enrichMetadata pr clock s) (id_of f) = Some d)
    \<and> length (persistedDurations s) + 1 \<le> length (persistedDurations (enrichMetadata pr clock s))
    \<and> last (persistedDurations (enrichMetadata pr clock s)) = durations (enrichMetadata pr clock s)
    \<and> (20 \<le> length (filter (\<lambda>f. probeOk (pr f)) (butlast (metadataQueue s))) \<longrightarrow>
        length (persistedDurations s) + 2
          \<le> length (persistedDurations (enrichMetadata pr clock s)))"
proof -
  note u = enrichMetadata_unfold [OF assms, of pr clock]
  let ?b = "\<lparr>batch = Map.empty, batchSize = 0, lastBatchTime = clock 0,
             lastMaxDuration = durationMax s\<rparr>"
  let ?s = "s\<lparr>isEnriching := True\<rparr>"
  have d: "durations (enrichMetadata pr clock s) = durations s ++ measuredMap pr (metadataQueue s)"
    unfolding u by (simp add: enrichLoop_durations [OF assms(3)])
  have v: "durations (enrichMetadata pr clock s) (id_of f) = Some d"
    if "distinct (map id_of (metadataQueue s))" "f \<in> set (metadataQueue s)" "pr f = Measured d" "d > 0"
    using measuredMap_value [of "metadataQueue s" f pr d] that by (simp add: d map_add_def)
  have w: "length (persistedDurations ?s) + 1
             \<le> length (persistedDurations (enrichMetadata pr clock s))
           \<and> (20 \<le> batchSize ?b + length (filter (\<lambda>f. probeOk (pr f)) (butlast (metadataQueue s))) \<longrightarrow>
                length (persistedDurations ?s) + 2
                  \<le> length (persistedDurations (enrichMetadata pr clock s)))"
    unfolding u by (rule enrichLoop_writes [OF assms(3)]) simp
  have e: "metadataQueue (enrichMetadata pr clock s) = [] \<and> \<not> isEnriching (enrichMetadata pr clock s)
           \<and> last (persistedDurations (enrichMetadata pr clock s)) = durations (enrichMetadata pr clock s)"
    unfolding u using enrichLoop_done [OF assms(3), of pr clock "durationMax s" 1 ?b ?s] by simp
  show ?thesis using d v w e by (simp add: dom_measuredMap Un_commute)
qed

text \<open>25 files, every probe finds 3 seconds: the cache is written at least twice and the map
  holds the 25 entries.\<close>

theorem enrichment_pass_witness:
  "isStarted (startedApp (library 25)) \<and> \<not> isEnriching (startedApp (library 25))
   \<and> metadataQueue (startedApp (library 25)) \<noteq> []
   \<and> 20 \<le> length (filter (\<lambda>f. probeOk (Measured 3)) (butlast (metadataQueue (startedApp (library 25)))))
   \<and> 2 \<le> length (persistedDurations (enrichMetadata (\<lambda>f. Measured 3) (\<lambda>k. 0) (startedApp (library 25))))
   \<and> dom (durations (enrichMetadata (\<lambda>f. Measured 3) (\<lambda>k. 0) (startedApp (library 25))))
       = id_of ` set (library 25)
   \<and> metadataQueue (enrichMetadata (\<lambda>f. Measured 3) (\<lambda>k. 0) (startedApp (library 25))) = []"
proof -
  let ?s = "startedApp (library 25)"
  have q: "metadataQueue ?s = library 25" by (simp add: startedApp_def)
  have len: "length (library 25) = 25" by (simp add: library_def)
  have h: "isStarted ?s" "\<not> isEnriching ?s" "metadataQueue ?s \<noteq> []"
    using len by (auto simp: startedApp_def initialApp_def)
  have c: "20 \<le> length (filter (\<lambda>f. probeOk (Measured 3)) (butlast (metadataQueue ?s)))"
    using len by (simp add: q)
  have p: "persistedDurations ?s = []" "dom (durations ?s) = {}"
    by (simp_all add: startedApp_def initialApp_def)
  have i: "{id_of f | f. f \<in> set (metadataQueue ?s) \<and> probeOk (Measured 3)} = id_of ` set (library 25)"
    by (auto simp: q)
  show ?thesis
    using enrichment_pass [OF h, where pr = "\<lambda>f. Measured 3" and clock = "\<lambda>k. 0"
        and f = fileA and d = 3] h c p i
    by simp
qed

subsection \<open>Batch relocation\<close>

lemma writtenNames_append: "writtenNames (xs @ ys) = writtenNames xs @ writtenNames ys"
  by (induction xs rule: writtenNames.induct) auto

lemma moveOne_ok:
  "kind_of src = File \<Longrightarrow> moveOk io \<Longrightarrow>
   \<exists>d. moveOne io th src (n, disk) = Inr (n + 1, disk @ d) \<and> writtenNames d = [name_of src]"
  by (auto simp: moveOne_def moveOk_def Let_def split: option.splits)

lemma moveOne_skip:
  "kind_of src \<noteq> File \<Longrightarrow> moveOne io th src (n, disk) = Inr (n, disk)"
  by (simp add: moveOne_def)

lemma moveOne_fail:
  "kind_of src = File \<Longrightarrow> \<not> moveOk io \<Longrightarrow>
   \<exists>d. moveOne io th src (n, disk) = Inl (disk @ d) \<and> writtenNames d = []"
  by (auto simp: moveOne_def moveOk_def Let_def)

lemma moveLoop_ok:
  "\<forall>src\<in>set xs. kind_of src = File \<longrightarrow> moveOk (io src) \<Longrightarrow>
   \<exists>d. moveLoop io th xs (n, disk)
         = Inr (n + length (filter (\<lambda>x. kind_of x = File) xs), disk @ d)
       \<and> writtenNames d = map name_of (filter (\<lambda>x. kind_of x = File) xs)"
proof (induction xs arbitrary: n disk)
  case Nil
  then show ?case by simp
next
  case (Cons x xs)
  show ?case
  proof (cases "kind_of x = File")
    case True
    then obtain d1 where d1: "moveOne (io x) th x (n, disk) = Inr (n + 1, disk @ d1)"
      "writtenNames d1 = [name_of x]"
      using moveOne_ok [of x "io x" th n disk] Cons.prems by auto
    obtain d2 where d2: "moveLoop io th xs (n + 1, disk @ d1)
         = Inr (n + 1 + length (filter (\<lambda>x. kind_of x = File) xs), (disk @ d1) @ d2)"
      "writtenNames d2 = map name_of (filter (\<lambda>x. kind_of x = File) xs)"
      using Cons.IH [of "n + 1" "disk @ d1"] Cons.prems by auto
    have "moveLoop io th (x # xs) (n, disk)
            = Inr (n + length (filter (\<lambda>x. kind_of x = File) (x # xs)), disk @ (d1 @ d2))"
      using d1 d2 True by simp
    moreover have "writtenNames (d1 @ d2) = map name_of (filter (\<lambda>x. kind_of x = File) (x # xs))"
      using d1 d2 True by (simp add: writtenNames_append)
    ultimately show ?thesis by blast
  next
    case False
    then show ?thesis
      using Cons.IH [of n disk] Cons.prems by (simp add: moveOne_skip)
  qed
qed

lemma moveLoop_fail:
  assumes "\<forall>src\<in>set pre. kind_of src = File \<longrightarrow> moveOk (io src)"
    and "kind_of bad = File" and "\<not> moveOk (io bad)"
  shows "\<exists>d. moveLoop io th (pre @ bad # post) (n, disk) = Inl (disk @ d)
           \<and> writtenNames d = map name_of (filter (\<lambda>x. kind_of x = File) pre)"
  using assms(1)
proof (induction pre arbitrary: n disk)
  case Nil
  then show ?case using moveOne_fail [OF assms(2,3), of th n disk] by auto
next
  case (Cons x xs)
  show ?case
  proof (cases "kind_of x = File")
    case True
    then obtain d1 where d1: "moveOne (io x) th x (n, disk) = Inr (n + 1, disk @ d1)"
      "writtenNames d1 = [name_of x]"
      using moveOne_ok [of x "io x" th n disk] Cons.prems by auto
    obtain d2 where d2: "moveLoop io th (xs @ bad # post) (n + 1, disk @ d1) = Inl ((disk @ d1) @ d2)"
      "writtenNames d2 = map name_of (filter (\<lambda>x. kind_of x = File) xs)"
      using Cons.IH [of "n + 1" "disk @ d1"] Cons.prems by auto
    have "moveLoop io th ((x # xs) @ bad # post) (n, disk) = Inl (disk @ (d1 @ d2))"
      using d1 d2 by simp
    moreover have "writtenNames (d1 @ d2) = map name_of (filter (\<lambda>x. kind_of x = File) (x # xs))"
      using d1 d2 True by (simp add: writtenNames_append)
    ultimately show ?thesis by blast
  next
    case False
    then show ?thesis
      using Cons.IH [of n disk] Cons.prems by (simp add: moveOne_skip)
  qed
qed

lemma selectedIds_refreshFiles: "selectedIds (stateOf (refreshFiles e s)) = selectedIds s"
  by (cases "collect (scanned e)")
     (auto simp: refreshFiles_def Let_def split: option.splits promise.splits)

text \<open>
  Claim C2 as stated fails where a read fails.  Three files are selected and the read of the
  second fails: the loop is left at that entry, so the first file has been moved and the
  third is not attempted; the notice is \<open>BatchMoveFailed\<close> and carries no count, the selection
  is still the three ids, and no rescan has run (the explorer tree is what it was).
\<close>

theorem failed_read_counterexample:
  "error (fst (handleBatchMove failingRead (rescanEnv [fileB, fileC] Map.empty) targetFolder
                 selectionApp)) = Some BatchMoveFailed
   \<and> selectedIds (fst (handleBatchMove failingRead (rescanEnv [fileB, fileC] Map.empty) targetFolder
                 selectionApp)) = [''a.wav'', ''b.wav'', ''c.wav'']
   \<and> explorerItems (fst (handleBatchMove failingRead (rescanEnv [fileB, fileC] Map.empty)
                 targetFolder selectionApp)) = []
   \<and> writtenNames (snd (handleBatchMove failingRead (rescanEnv [fileB, fileC] Map.empty)
                 targetFolder selectionApp)) = [''a.wav'']"
  by (simp add: handleBatchMove_def itemsToMove_def selectionApp_def startedApp_def initialApp_def
        targetFolder_def folderOf_def failingRead_def allOk_def moveOne_def Let_def
        fileA_def fileB_def fileC_def audioFile_def)

text \<open>
  Claim C2, amended.  The entries are taken in order.  When every read and write succeeds, the
  files are all written under the target, the selection is cleared, the rescan runs and the
  notice reports the number of files moved (the notice is \<open>BatchMoveFailed\<close> when the rescan
  itself throws).  When a read or write fails for an entry, the batch stops there: exactly
  the files before it have been written, and the state is the old one with the notice
  \<open>BatchMoveFailed\<close>, so the selection is kept and no rescan runs.
\<close>

theorem handleBatchMove_outcome:
  assumes "itemsToMove s \<noteq> []" and "kind_of target = Directory"
  shows "((\<forall>src\<in>set (itemsToMove s). kind_of src = File \<longrightarrow> moveOk (io src)) \<longrightarrow>
           fst (handleBatchMove io e target s)
             = (case refreshFiles e (s\<lparr>isLoading := True, selectedIds := []\<rparr>) of
                  Returned s2 \<Rightarrow>
                    s2\<lparr>error := Some (Moved (length (filter (\<lambda>x. kind_of x = File) (itemsToMove s)))),
                       isLoading := False\<rparr>
                | Thrown s2 \<Rightarrow> s2\<lparr>error := Some BatchMoveFailed, isLoading := False\<rparr>)
           \<and> selectedIds (fst (handleBatchMove io e target s)) = []
           \<and> writtenNames (snd (handleBatchMove io e target s))
               = map name_of (filter (\<lambda>x. kind_of x = File) (itemsToMove s)))
       \<and> (itemsToMove s = pre @ bad # post
            \<and> (\<forall>src\<in>set pre. kind_of src = File \<longrightarrow> moveOk (io src))
            \<and> kind_of bad = File \<and> \<not> moveOk (io bad) \<longrightarrow>
           fst (handleBatchMove io e target s) = s\<lparr>error := Some BatchMoveFailed, isLoading := False\<rparr>
           \<and> writtenNames (snd (handleBatchMove io e target s))
               = map name_of (filter (\<lambda>x. kind_of x = File) pre))"
proof -
  have len: "length (itemsToMove s) \<noteq> 0" using assms(1) by simp
  have ok: "fst (handleBatchMove io e target s)
             = (case refreshFiles e (s\<lparr>isLoading := True, selectedIds := []\<rparr>) of
                  Returned s2 \<Rightarrow>
                    s2\<lparr>error := Some (Moved (length (filter (\<lambda>x. kind_of x = File) (itemsToMove s)))),
                       isLoading := False\<rparr>
                | Thrown s2 \<Rightarrow> s2\<lparr>error := Some BatchMoveFailed, isLoading := False\<rparr>)
           \<and> selectedIds (fst (handleBatchMove io e target s)) = []
           \<and> writtenNames (snd (handleBatchMove io e target s))
               = map name_of (filter (\<lambda>x. kind_of x = File) (itemsToMove s))"
    if h: "\<forall>src\<in>set (itemsToMove s). kind_of src = File \<longrightarrow> moveOk (io src)"
  proof -
    obtain d where d: "moveLoop io (handle_of target) (itemsToMove s) (0, [])
         = Inr (0 + length (filter (\<lambda>x. kind_of x = File) (itemsToMove s)), [] @ d)"
      "writtenNames d = map name_of (filter (\<lambda>x. kind_of x = File) (itemsToMove s))"
      using moveLoop_ok [OF h, of "handle_of target" 0 "[]"] by blast
    have sel: "selectedIds (stateOf (refreshFiles e (s\<lparr>isLoading := True, selectedIds := []\<rparr>))) = []"
      by (simp add: selectedIds_refreshFiles)
    show ?thesis
      using d sel len assms(2)
      by (cases "refreshFiles e (s\<lparr>isLoading := True, selectedIds := []\<rparr>)")
         (simp_all add: handleBatchMove_def Let_def)
  qed
  have bad: "fst (handleBatchMove io e target s) = s\<lparr>error := Some BatchMoveFailed, isLoading := False\<rparr>
           \<and> writtenNames (snd (handleBatchMove io e target s))
               = map name_of (filter (\<lambda>x. kind_of x = File) pre)"
    if h: "itemsToMove s = pre @ bad # post"
       "\<forall>src\<in>set pre. kind_of src = File \<longrightarrow> moveOk (io src)"
       "kind_of bad = File" "\<not> moveOk (io bad)"
  proof -
    obtain d where d: "moveLoop io (handle_of target) (pre @ bad # post) (0, []) = Inl ([] @ d)"
      "writtenNames d = map name_of (filter (\<lambda>x. kind_of x = File) pre)"
      using moveLoop_fail [OF h(2,3,4), of "handle_of target" post 0 "[]"] by blast
    show ?thesis
      using d len assms(2) h(1) by (simp add: handleBatchMove_def Let_def)
  qed
  show ?thesis using ok bad by blast
qed

text \<open>Three selected files: with a file system that never fails all three are moved, 3 is
  reported and the selection is cleared; with the failing read of \<open>b.wav\<close> only \<open>a.wav\<close> is
  moved.\<close>

theorem handleBatchMove_outcome_witness:
  "itemsToMove selectionApp \<noteq> [] \<and> kind_of targetFolder = Directory
   \<and> error (fst (handleBatchMove (\<lambda>src. allOk) (rescanEnv [targetFolder] Map.empty) targetFolder
                 selectionApp)) = Some (Moved 3)
   \<and> selectedIds (fst (handleBatchMove (\<lambda>src. allOk) (rescanEnv [targetFolder] Map.empty)
                 targetFolder selectionApp)) = []
   \<and> writtenNames (snd (handleBatchMove (\<lambda>src. allOk) (rescanEnv [targetFolder] Map.empty)
                 targetFolder selectionApp)) = [''a.wav'', ''b.wav'', ''c.wav'']
   \<and> itemsToMove selectionApp = [fileA] @ fileB # [fileC]
   \<and> kind_of fileB = File \<and> \<not> moveOk (failingRead fileB)
   \<and> fst (handleBatchMove failingRead (rescanEnv [targetFolder] Map.empty) targetFolder selectionApp)
       = selectionApp\<lparr>error := Some BatchMoveFailed, isLoading := False\<rparr>
   \<and> writtenNames (snd (handleBatchMove failingRead (rescanEnv [targetFolder] Map.empty)
                 targetFolder selectionApp)) = [''a.wav'']"
proof -
  have i: "itemsToMove selectionApp = [fileA] @ fileB # [fileC]"
    by (simp add: itemsToMove_def selectionApp_def startedApp_def initialApp_def
          fileA_def fileB_def fileC_def audioFile_def)
  have k: "kind_of targetFolder = Directory" "kind_of fileA = File" "kind_of fileB = File"
    "kind_of fileC = File" "name_of fileA = ''a.wav''" "name_of fileB = ''b.wav''"
    "name_of fileC = ''c.wav''"
    by (simp_all add: targetFolder_def folderOf_def fileA_def fileB_def fileC_def audioFile_def)
  have m: "moveOk allOk" "moveOk (failingRead fileA)" "\<not> moveOk (failingRead fileB)"
    by (simp_all add: moveOk_def allOk_def failingRead_def fileA_def fileB_def audioFile_def)
  have ne: "itemsToMove selectionApp \<noteq> []" using i by simp
  have r: "refreshFiles (rescanEnv [targetFolder] Map.empty)
             (selectionApp\<lparr>isLoading := True, selectedIds := []\<rparr>)
           = Returned (stateOf (refreshFiles (rescanEnv [targetFolder] Map.empty)
             (selectionApp\<lparr>isLoading := True, selectedIds := []\<rparr>)))"
    by (simp add: refreshFiles_def rescanEnv_def collect_def targetFolder_def folderOf_def
          selectionApp_def startedApp_def initialApp_def Let_def)
  note t1 = handleBatchMove_outcome [OF ne k(1), where io = "\<lambda>src. allOk"
      and e = "rescanEnv [targetFolder] Map.empty" and pre = "[fileA]" and bad = fileB and post = "[fileC]"]
  note t2 = handleBatchMove_outcome [OF ne k(1), where io = failingRead
      and e = "rescanEnv [targetFolder] Map.empty" and pre = "[fileA]" and bad = fileB and post = "[fileC]"]
  have a: "error (fst (handleBatchMove (\<lambda>src. allOk) (rescanEnv [targetFolder] Map.empty)
                 targetFolder selectionApp)) = Some (Moved 3)
       \<and> selectedIds (fst (handleBatchMove (\<lambda>src. allOk) (rescanEnv [targetFolder] Map.empty)
                 targetFolder selectionApp)) = []
       \<and> writtenNames (snd (handleBatchMove (\<lambda>src. allOk) (rescanEnv [targetFolder] Map.empty)
                 targetFolder selectionApp)) = [''a.wav'', ''b.wav'', ''c.wav'']"
    using t1 m(1) by (subst (asm) r) (simp add: i k selectedIds_refreshFiles)
  have b: "fst (handleBatchMove failingRead (rescanEnv [targetFolder] Map.empty) targetFolder selectionApp)
       = selectionApp\<lparr>error := Some BatchMoveFailed, isLoading := False\<rparr>
   \<and> writtenNames (snd (handleBatchMove failingRead (rescanEnv [targetFolder] Map.empty)
                 targetFolder selectionApp)) = [''a.wav'']"
    using t2 i k m by simp
  show ?thesis using a b i k m ne by blast
qed

subsection \<open>Sorting: the flat list\<close>

lemma str_less_irrefl: "\<not> str_less a a"
  by (induction a) auto

lemma str_less_trans: "str_less a b \<Longrightarrow> str_less b c \<Longrightarrow> str_less a c"
proof (induction a b arbitrary: c rule: str_less.induct)
  case 1
  then show ?case by simp
next
  case (2 y ys)
  then show ?case by (cases c) auto
next
  case (3 x xs)
  then show ?case by simp
next
  case (4 x xs y ys)
  then show ?case by (cases c) auto
qed

lemma str_less_total: "a \<noteq> b \<Longrightarrow> str_less a b \<or> str_less b a"
proof (induction a b rule: str_less.induct)
  case (4 x xs y ys)
  have "(of_char x :: nat) < of_char y \<or> (of_char y :: nat) < of_char x \<or> x = y"
    by (metis linorder_neqE_nat of_char_eq_iff)
  then show ?case using 4 by auto
qed auto

lemma jsLt_irrefl: "\<not> jsLt a a"
  by (cases a) (simp_all add: str_less_irrefl)

lemma jsLt_trans: "jsLt a b \<Longrightarrow> jsLt b c \<Longrightarrow> jsLt a c"
  by (cases a; cases b; cases c) (auto intro: str_less_trans)

lemma jsLt_total: "a \<noteq> b \<Longrightarrow> jsLt a b \<or> jsLt b a"
  by (cases a; cases b) (auto dest: str_less_total)

lemma js_less_sortValue:
  "js_less (sortValue k d r a) (sortValue k d r b) = jsLt (sortValue k d r a) (sortValue k d r b)"
  by (cases k) (simp_all add: sortValue_def)

text \<open>Insertion sort with a comparator that is negative exactly where the key of the first
  argument is smaller in a strict linear order \<open>L\<close>.\<close>

lemma mset_insertBy: "mset (insertBy cmp x ys) = add_mset x (mset ys)"
  by (induction ys) auto

lemma mset_fold_insertBy: "mset (fold (insertBy cmp) xs acc) = mset xs + mset acc"
  by (induction xs arbitrary: acc) (auto simp: mset_insertBy)

lemma mset_sortBy: "mset (sortBy cmp xs) = mset xs"
  by (simp add: sortBy_def mset_fold_insertBy)

lemma sorted_insertBy:
  assumes irr: "\<And>x. \<not> L x x" and tr: "\<And>x y z. L x y \<Longrightarrow> L y z \<Longrightarrow> L x z"
    and tot: "\<And>x y. x \<noteq> y \<Longrightarrow> L x y \<or> L y x"
    and c: "\<And>a b. (cmp a b < 0) = L (kf a) (kf b)"
  shows "sorted_wrt (\<lambda>a b. \<not> L (kf b) (kf a)) ys \<Longrightarrow>
         sorted_wrt (\<lambda>a b. \<not> L (kf b) (kf a)) (insertBy cmp x ys)"
proof (induction ys)
  case Nil
  then show ?case by simp
next
  case (Cons y ys)
  show ?case
  proof (cases "cmp x y < 0")
    case True
    then have xy: "L (kf x) (kf y)" using c by simp
    have "\<not> L (kf z) (kf x)" if "z \<in> set (y # ys)" for z
    proof
      assume zx: "L (kf z) (kf x)"
      then have "L (kf z) (kf y)" using xy tr by blast
      moreover have "z = y \<or> \<not> L (kf z) (kf y)" using that Cons.prems by auto
      ultimately show False using irr by auto
    qed
    then show ?thesis using True Cons.prems by auto
  next
    case False
    then have "\<not> L (kf x) (kf y)" using c by simp
    then show ?thesis
      using False Cons by (auto simp: set_insertBy)
  qed
qed

lemma filter_insertBy:
  assumes irr: "\<And>x. \<not> L x x" and tr: "\<And>x y z. L x y \<Longrightarrow> L y z \<Longrightarrow> L x z"
    and c: "\<And>a b. (cmp a b < 0) = L (kf a) (kf b)"
  shows "sorted_wrt (\<lambda>a b. \<not> L (kf b) (kf a)) ys \<Longrightarrow>
         filter (\<lambda>a. kf a = v) (insertBy cmp x ys)
           = filter (\<lambda>a. kf a = v) ys @ (if kf x = v then [x] else [])"
proof (induction ys)
  case Nil
  then show ?case by simp
next
  case (Cons y ys)
  show ?case
  proof (cases "cmp x y < 0")
    case True
    then have xy: "L (kf x) (kf y)" using c by simp
    have "kf z \<noteq> kf x" if "z \<in> set (y # ys)" for z
    proof
      assume e: "kf z = kf x"
      have "z = y \<or> \<not> L (kf z) (kf y)" using that Cons.prems by auto
      then show False using xy e irr by auto
    qed
    then have "kf x = v \<Longrightarrow> filter (\<lambda>a. kf a = v) (y # ys) = []"
      by (auto simp: filter_empty_conv)
    then show ?thesis using True by auto
  next
    case False
    then show ?thesis using Cons by auto
  qed
qed

lemma fold_insertBy_sorted:
  assumes irr: "\<And>x. \<not> L x x" and tr: "\<And>x y z. L x y \<Longrightarrow> L y z \<Longrightarrow> L x z"
    and tot: "\<And>x y. x \<noteq> y \<Longrightarrow> L x y \<or> L y x"
    and c: "\<And>a b. (cmp a b < 0) = L (kf a) (kf b)"
  shows "sorted_wrt (\<lambda>a b. \<not> L (kf b) (kf a)) acc \<Longrightarrow>
         sorted_wrt (\<lambda>a b. \<not> L (kf b) (kf a)) (fold (insertBy cmp) xs acc)
         \<and> filter (\<lambda>a. kf a = v) (fold (insertBy cmp) xs acc)
             = filter (\<lambda>a. kf a = v) acc @ filter (\<lambda>a. kf a = v) xs"
proof (induction xs arbitrary: acc)
  case Nil
  then show ?case by simp
next
  case (Cons x xs)
  have s: "sorted_wrt (\<lambda>a b. \<not> L (kf b) (kf a)) (insertBy cmp x acc)"
    using sorted_insertBy [of L cmp kf acc x] irr tr tot c Cons.prems by blast
  have f: "filter (\<lambda>a. kf a = v) (insertBy cmp x acc)
             = filter (\<lambda>a. kf a = v) acc @ (if kf x = v then [x] else [])"
    using filter_insertBy [of L cmp kf acc v x] irr tr c Cons.prems by blast
  show ?case using Cons.IH [OF s] f by simp
qed

lemma insertBy_last:
  assumes c: "\<And>a b. (cmp a b < 0) = L (kf a) (kf b)"
  shows "\<forall>y\<in>set acc. \<not> L (kf x) (kf y) \<Longrightarrow> insertBy cmp x acc = acc @ [x]"
  by (induction acc) (auto simp: c)

lemma fold_insertBy_id:
  assumes c: "\<And>a b. (cmp a b < 0) = L (kf a) (kf b)"
  shows "sorted_wrt (\<lambda>a b. \<not> L (kf b) (kf a)) (acc @ xs) \<Longrightarrow> fold (insertBy cmp) xs acc = acc @ xs"
proof (induction xs arbitrary: acc)
  case Nil
  then show ?case by simp
next
  case (Cons x xs)
  have "\<forall>y\<in>set acc. \<not> L (kf x) (kf y)"
    using Cons.prems by (auto simp: sorted_wrt_append)
  then have i: "insertBy cmp x acc = acc @ [x]" using insertBy_last [of cmp L kf acc x] c by blast
  have "sorted_wrt (\<lambda>a b. \<not> L (kf b) (kf a)) ((acc @ [x]) @ xs)" using Cons.prems by simp
  then show ?case using Cons.IH [of "acc @ [x]"] i by simp
qed

lemma strict_sorted_unique:
  assumes irr: "\<And>x. \<not> L x x" and tr: "\<And>x y z. L x y \<Longrightarrow> L y z \<Longrightarrow> L x z"
  shows "sorted_wrt (\<lambda>a b. L (kf a) (kf b)) xs \<Longrightarrow> sorted_wrt (\<lambda>a b. L (kf a) (kf b)) ys \<Longrightarrow>
         set xs = set ys \<Longrightarrow> xs = ys"
proof (induction xs arbitrary: ys)
  case Nil
  then show ?case by simp
next
  case (Cons x xs)
  obtain y ys' where ys: "ys = y # ys'" using Cons.prems(3) by (cases ys) auto
  have xy: "x = y"
  proof (rule ccontr)
    assume ne: "x \<noteq> y"
    then have "x \<in> set ys'" using Cons.prems(3) ys by auto
    then have a: "L (kf y) (kf x)" using Cons.prems(2) ys by auto
    have "y \<in> set xs" using ne Cons.prems(3) ys by auto
    then have "L (kf x) (kf y)" using Cons.prems(1) by auto
    then show False using a tr irr by blast
  qed
  have nx: "x \<notin> set xs" using Cons.prems(1) irr by auto
  have ny: "y \<notin> set ys'" using Cons.prems(2) ys irr by auto
  have "set xs = set ys'" using Cons.prems(3) ys xy nx ny by auto
  then have "xs = ys'" using Cons.IH [of ys'] Cons.prems(1,2) ys by simp
  then show ?case using xy ys by simp
qed

lemma sorted_distinct_strict:
  assumes tot: "\<And>x y. x \<noteq> y \<Longrightarrow> L x y \<or> L y x"
  shows "distinct (map kf xs) \<Longrightarrow> sorted_wrt (\<lambda>a b. \<not> L (kf b) (kf a)) xs \<Longrightarrow>
         sorted_wrt (\<lambda>a b. L (kf a) (kf b)) xs"
proof (induction xs)
  case Nil
  then show ?case by simp
next
  case (Cons x xs)
  have "L (kf x) (kf z)" if "z \<in> set xs" for z
  proof -
    have "kf x \<noteq> kf z" using that Cons.prems(1) by auto
    moreover have "\<not> L (kf z) (kf x)" using that Cons.prems(2) by auto
    ultimately show ?thesis using tot by blast
  qed
  then show ?case using Cons by auto
qed


lemma ordLt_irrefl: "\<not> ordLt ord x x"
  by (simp add: ordLt_def jsLt_irrefl)

lemma ordLt_trans: "ordLt ord x y \<Longrightarrow> ordLt ord y z \<Longrightarrow> ordLt ord x z"
  by (auto simp: ordLt_def intro: jsLt_trans split: if_splits)

lemma ordLt_total: "x \<noteq> y \<Longrightarrow> ordLt ord x y \<or> ordLt ord y x"
  using jsLt_total [of x y] by (auto simp: ordLt_def)

lemma compareFlat_negative:
  "(compareFlat k ord d r a b < 0) = ordLt ord (sortValue k d r a) (sortValue k d r b)"
proof -
  have "\<not> (jsLt (sortValue k d r a) (sortValue k d r b) \<and> jsLt (sortValue k d r b) (sortValue k d r a))"
    using jsLt_trans jsLt_irrefl by blast
  then show ?thesis
    by (auto simp: compareFlat_def Let_def js_less_sortValue ordLt_def)
qed

text \<open>The flat list is sorted, and entries with the same key keep their input order.\<close>

lemma sortedFiles_stable:
  "sorted_wrt (\<lambda>a b. \<not> ordLt (sortOrder s) (sortValue (sortKey s) (durations s) (ratings s) b)
                                         (sortValue (sortKey s) (durations s) (ratings s) a))
     (sortedFiles s)
   \<and> filter (\<lambda>f. sortValue (sortKey s) (durations s) (ratings s) f = v) (sortedFiles s)
       = filter (\<lambda>f. sortValue (sortKey s) (durations s) (ratings s) f = v) (allFiles s)"
proof -
  have "sorted_wrt (\<lambda>a b. \<not> ordLt (sortOrder s) (sortValue (sortKey s) (durations s) (ratings s) b)
                                         (sortValue (sortKey s) (durations s) (ratings s) a))
          (fold (insertBy (compareFlat (sortKey s) (sortOrder s) (durations s) (ratings s)))
                (allFiles s) [])
        \<and> filter (\<lambda>f. sortValue (sortKey s) (durations s) (ratings s) f = v)
            (fold (insertBy (compareFlat (sortKey s) (sortOrder s) (durations s) (ratings s)))
                  (allFiles s) [])
          = filter (\<lambda>f. sortValue (sortKey s) (durations s) (ratings s) f = v) []
            @ filter (\<lambda>f. sortValue (sortKey s) (durations s) (ratings s) f = v) (allFiles s)"
  proof (rule fold_insertBy_sorted)
    show "\<not> ordLt (sortOrder s) x x" for x by (rule ordLt_irrefl)
    show "ordLt (sortOrder s) x y \<Longrightarrow> ordLt (sortOrder s) y z \<Longrightarrow> ordLt (sortOrder s) x z" for x y z
      by (rule ordLt_trans)
    show "x \<noteq> y \<Longrightarrow> ordLt (sortOrder s) x y \<or> ordLt (sortOrder s) y x" for x y
      by (rule ordLt_total)
    show "(compareFlat (sortKey s) (sortOrder s) (durations s) (ratings s) a b < 0)
            = ordLt (sortOrder s) (sortValue (sortKey s) (durations s) (ratings s) a)
                                  (sortValue (sortKey s) (durations s) (ratings s) b)" for a b
      by (rule compareFlat_negative)
    show "sorted_wrt (\<lambda>a b. \<not> ordLt (sortOrder s) (sortValue (sortKey s) (durations s) (ratings s) b)
                                         (sortValue (sortKey s) (durations s) (ratings s) a)) []"
      by simp
  qed
  then show ?thesis by (simp add: sortedFiles_def sortBy_def)
qed

text \<open>Sorting the sorted flat list again changes nothing.\<close>

lemma sortedFiles_idempotent: "sortedFiles (s\<lparr>allFiles := sortedFiles s\<rparr>) = sortedFiles s"
proof -
  have "sorted_wrt (\<lambda>a b. \<not> ordLt (sortOrder s) (sortValue (sortKey s) (durations s) (ratings s) b)
                                         (sortValue (sortKey s) (durations s) (ratings s) a))
          ([] @ sortedFiles s)"
    using sortedFiles_stable [of s] by simp
  then have "fold (insertBy (compareFlat (sortKey s) (sortOrder s) (durations s) (ratings s)))
               (sortedFiles s) [] = [] @ sortedFiles s"
    by (rule fold_insertBy_id [rotated]) (rule compareFlat_negative)
  then show ?thesis by (simp add: sortedFiles_def [of "s\<lparr>allFiles := sortedFiles s\<rparr>"] sortBy_def)
qed

text \<open>With pairwise distinct keys, the descending flat list is the ascending one reversed.\<close>

lemma sortedFiles_reverse:
  assumes "distinct (map (sortValue (sortKey s) (durations s) (ratings s)) (allFiles s))"
  shows "sortedFiles (s\<lparr>sortOrder := Desc\<rparr>) = rev (sortedFiles (s\<lparr>sortOrder := Asc\<rparr>))"
proof -
  let ?kf = "sortValue (sortKey s) (durations s) (ratings s)"
  let ?A = "sortedFiles (s\<lparr>sortOrder := Asc\<rparr>)"
  let ?D = "sortedFiles (s\<lparr>sortOrder := Desc\<rparr>)"
  have mA: "mset ?A = mset (allFiles s)" and mD: "mset ?D = mset (allFiles s)"
    by (simp_all add: sortedFiles_def mset_sortBy)
  have "mset (map ?kf ?A) = mset (map ?kf (allFiles s))" using mA by (metis mset_map)
  then have dA: "distinct (map ?kf ?A)" using assms by (metis mset_eq_imp_distinct_iff)
  have "mset (map ?kf ?D) = mset (map ?kf (allFiles s))" using mD by (metis mset_map)
  then have dD: "distinct (map ?kf ?D)" using assms by (metis mset_eq_imp_distinct_iff)
  have sA: "sorted_wrt (\<lambda>a b. \<not> ordLt Asc (?kf b) (?kf a)) ?A"
    using sortedFiles_stable [of "s\<lparr>sortOrder := Asc\<rparr>"] by simp
  have sD: "sorted_wrt (\<lambda>a b. \<not> ordLt Desc (?kf b) (?kf a)) ?D"
    using sortedFiles_stable [of "s\<lparr>sortOrder := Desc\<rparr>"] by simp
  have "sorted_wrt (\<lambda>a b. ordLt Asc (?kf a) (?kf b)) ?A"
    by (rule sorted_distinct_strict [OF ordLt_total dA sA])
  then have rA: "sorted_wrt (\<lambda>a b. ordLt Desc (?kf a) (?kf b)) (rev ?A)"
    by (simp add: sorted_wrt_rev ordLt_def)
  have stD: "sorted_wrt (\<lambda>a b. ordLt Desc (?kf a) (?kf b)) ?D"
    by (rule sorted_distinct_strict [OF ordLt_total dD sD])
  have st: "set ?D = set (rev ?A)"
    using mA mD by (metis mset_eq_setD set_rev)
  show ?thesis
    by (rule strict_sorted_unique [where L = "ordLt Desc" and kf = ?kf,
          OF ordLt_irrefl ordLt_trans stD rA st])
qed

end
